theory Spec2Isabelle
  imports Main "HOL-Library.Word" "HOL-Library.Product_Lexorder"
begin

unbundle bit_operations_syntax

section \<open>Boards\<close>

text \<open>
  A board is a list of nine lists of nine integers, built by the program itself
  (\<^verbatim>\<open>[[0] * 9 for _ in range(9)]\<close> or \<^verbatim>\<open>get_base_pattern\<close>), and every
  index the solvers use comes from \<^verbatim>\<open>range(9)\<close>. A board is therefore modelled
  by its cell function: \<open>b r c\<close> is \<^verbatim>\<open>board[r][c]\<close>, and only the indices below
  nine are ever read or written. Cell values are digits, \<open>0\<close> for an empty cell.
  The bitmasks are Python integers and are modelled as \<open>int\<close>.
\<close>

type_synonym board = "nat \<Rightarrow> nat \<Rightarrow> nat"

type_synonym cell = "nat \<times> nat"

text \<open>\<^verbatim>\<open>board[r][c] = v\<close>\<close>

definition put :: "board \<Rightarrow> nat \<Rightarrow> nat \<Rightarrow> nat \<Rightarrow> board" where
  "put b r c v = b(r := (b r)(c := v))"

text \<open>The nine rows of a board as lists, and the board of a list of rows.\<close>

definition rows_of :: "board \<Rightarrow> nat list list" where
  "rows_of b = map (\<lambda>r. map (b r) [0..<9]) [0..<9]"

definition board_of :: "nat list list \<Rightarrow> board" where
  "board_of rs = (\<lambda>r c. rs ! r ! c)"

text \<open>\<^verbatim>\<open>for r in range(9): for c in range(9)\<close>: the cells in row-major order.\<close>

definition all_cells :: "cell list" where
  "all_cells = concat (map (\<lambda>r. map (\<lambda>c. (r, c)) [0..<9]) [0..<9])"

section \<open>The bitmask solver of sudoku\_dp.py\<close>

record bitmask_solver =
  rows :: "nat \<Rightarrow> int"
  cols :: "nat \<Rightarrow> int"
  boxes :: "nat \<Rightarrow> int"

definition get_box_index :: "nat \<Rightarrow> nat \<Rightarrow> nat" where
  "get_box_index r c = (r div 3) * 3 + (c div 3)"

text \<open>\<^verbatim>\<open>rows[r] |= mask; cols[c] |= mask; boxes[box_idx] |= mask\<close>\<close>

definition set_masks :: "bitmask_solver \<Rightarrow> nat \<Rightarrow> nat \<Rightarrow> nat \<Rightarrow> int \<Rightarrow> bitmask_solver" where
  "set_masks s r c box_idx msk =
     s\<lparr>rows := (rows s)(r := rows s r OR msk),
       cols := (cols s)(c := cols s c OR msk),
       boxes := (boxes s)(box_idx := boxes s box_idx OR msk)\<rparr>"

text \<open>\<^verbatim>\<open>rows[r] &= ~mask; cols[c] &= ~mask; boxes[box_idx] &= ~mask\<close>\<close>

definition clear_masks :: "bitmask_solver \<Rightarrow> nat \<Rightarrow> nat \<Rightarrow> nat \<Rightarrow> int \<Rightarrow> bitmask_solver" where
  "clear_masks s r c box_idx msk =
     s\<lparr>rows := (rows s)(r := rows s r AND NOT msk),
       cols := (cols s)(c := cols s c AND NOT msk),
       boxes := (boxes s)(box_idx := boxes s box_idx AND NOT msk)\<rparr>"

definition zero_masks :: bitmask_solver where
  "zero_masks = \<lparr>rows = (\<lambda>_. 0), cols = (\<lambda>_. 0), boxes = (\<lambda>_. 0)\<rparr>"

text \<open>
  \<^verbatim>\<open>_initialize_masks\<close>: one step of the double loop, and the loop itself. The result
  is the solver with its masks and the list \<^verbatim>\<open>empty_cells\<close>.
\<close>

definition init_step :: "board \<Rightarrow> bitmask_solver \<times> cell list \<Rightarrow> cell \<Rightarrow> bitmask_solver \<times> cell list" where
  "init_step b acc rc =
     (case acc of (s, empty_cells) \<Rightarrow> case rc of (r, c) \<Rightarrow>
        if b r c \<noteq> 0
        then (let val = b r c - 1; msk = push_bit val 1
              in (set_masks s r c (get_box_index r c) msk, empty_cells))
        else (s, empty_cells @ [(r, c)]))"

definition initialize_masks :: "board \<Rightarrow> bitmask_solver \<times> cell list" where
  "initialize_masks b = foldl (init_step b) (zero_masks, []) all_cells"

definition taken_mask :: "bitmask_solver \<Rightarrow> nat \<Rightarrow> nat \<Rightarrow> int" where
  "taken_mask s r c = rows s r OR cols s c OR boxes s (get_box_index r c)"

definition count_options :: "bitmask_solver \<Rightarrow> nat \<Rightarrow> nat \<Rightarrow> nat" where
  "count_options s r c =
     length (filter (\<lambda>k. taken_mask s r c AND push_bit k 1 = 0) [0..<9])"

text \<open>
  \<^verbatim>\<open>_backtrack(board, empty_cells, idx)\<close>. The pair \<^verbatim>\<open>(empty_cells, idx)\<close> is only
  read as \<^verbatim>\<open>empty_cells[idx:]\<close>, so the model carries that suffix; the recursive
  call on \<^verbatim>\<open>idx + 1\<close> is the call on the tail. \<open>backtrack_digits\<close> is the loop
  \<^verbatim>\<open>for k in range(9)\<close> from digit index \<open>k\<close> on, with \<^verbatim>\<open>taken\<close> computed once
  before the loop as in the source.
\<close>

function backtrack :: "bitmask_solver \<Rightarrow> board \<Rightarrow> cell list \<Rightarrow> bool \<times> bitmask_solver \<times> board"
  and backtrack_digits ::
    "nat \<Rightarrow> nat \<Rightarrow> cell list \<Rightarrow> int \<Rightarrow> nat list \<Rightarrow> bitmask_solver \<Rightarrow> board \<Rightarrow> bool \<times> bitmask_solver \<times> board"
where
  "backtrack s b [] = (True, s, b)"
| "backtrack s b ((r, c) # rest) =
     backtrack_digits r c rest (taken_mask s r c) [0..<9] s b"
| "backtrack_digits r c rest taken [] s b = (False, s, b)"
| "backtrack_digits r c rest taken (k # ks) s b =
     (let msk = push_bit k 1 in
      if taken AND msk = 0
      then (let b1 = put b r c (k + 1);
                s1 = set_masks s r c (get_box_index r c) msk;
                (found, s2, b2) = backtrack s1 b1 rest
            in if found then (True, s2, b2)
               else backtrack_digits r c rest taken ks
                      (clear_masks s2 r c (get_box_index r c) msk) (put b2 r c 0))
      else backtrack_digits r c rest taken ks s b)"
  by pat_completeness auto
termination
  by (relation "measure (\<lambda>x. case x of
        Inl (s, b, cs) \<Rightarrow> 11 * length cs
      | Inr (r, c, rest, taken, ks, s, b) \<Rightarrow> 11 * length rest + 1 + length ks)")
     auto

text \<open>
  \<^verbatim>\<open>_backtrack_count(board, empty_cells, idx, limit)\<close>, with the running
  \<^verbatim>\<open>count\<close> of the loop as an argument of \<open>count_digits\<close>.
\<close>

function backtrack_count :: "bitmask_solver \<Rightarrow> board \<Rightarrow> cell list \<Rightarrow> nat \<Rightarrow> nat \<times> bitmask_solver \<times> board"
  and count_digits ::
    "nat \<Rightarrow> nat \<Rightarrow> cell list \<Rightarrow> nat \<Rightarrow> int \<Rightarrow> nat list \<Rightarrow> nat \<Rightarrow> bitmask_solver \<Rightarrow> board \<Rightarrow> nat \<times> bitmask_solver \<times> board"
where
  "backtrack_count s b [] limit = (1, s, b)"
| "backtrack_count s b ((r, c) # rest) limit =
     count_digits r c rest limit (taken_mask s r c) [0..<9] 0 s b"
| "count_digits r c rest limit taken [] count s b = (count, s, b)"
| "count_digits r c rest limit taken (k # ks) count s b =
     (let msk = push_bit k 1 in
      if taken AND msk = 0
      then (let b1 = put b r c (k + 1);
                s1 = set_masks s r c (get_box_index r c) msk;
                (n, s2, b2) = backtrack_count s1 b1 rest limit;
                count' = count + n;
                s3 = clear_masks s2 r c (get_box_index r c) msk;
                b3 = put b2 r c 0
            in if count' \<ge> limit then (count', s3, b3)
               else count_digits r c rest limit taken ks count' s3 b3)
      else count_digits r c rest limit taken ks count s b)"
  by pat_completeness auto
termination
  by (relation "measure (\<lambda>x. case x of
        Inl (s, b, cs, limit) \<Rightarrow> 11 * length cs
      | Inr (r, c, rest, limit, taken, ks, count, s, b) \<Rightarrow> 11 * length rest + 1 + length ks)")
     auto

text \<open>
  \<^verbatim>\<open>BitmaskSolver.solve\<close>: Python's \<^verbatim>\<open>list.sort(key=...)\<close> is stable, as
  \<open>sort_key\<close> is. \<open>None\<close> is the source's \<^verbatim>\<open>None\<close>.
\<close>

definition solve :: "board \<Rightarrow> board option" where
  "solve board =
     (let (s, empty_cells) = initialize_masks board;
          empty_cells' = sort_key (\<lambda>cell. count_options s (fst cell) (snd cell)) empty_cells;
          (found, s', board') = backtrack s board empty_cells'
      in if found then Some board' else None)"



section \<open>Evaluating the bitmask solver on concrete boards\<close>

text \<open>
  Concrete boards and masks are kept in a normal form while a search is evaluated:
  a board as \<open>board_of\<close> a list of rows, a mask array as \<open>tab\<close> of a list.
\<close>

definition tab :: "int list \<Rightarrow> nat \<Rightarrow> int" where
  "tab xs = (\<lambda>i. if i < length xs then xs ! i else 0)"


text \<open>The rest of one iteration of the counting loop, once the recursive call has returned.\<close>

definition count_after ::
  "nat \<Rightarrow> nat \<Rightarrow> cell list \<Rightarrow> nat \<Rightarrow> int \<Rightarrow> nat list \<Rightarrow> nat \<Rightarrow> nat \<Rightarrow> nat \<times> bitmask_solver \<times> board
     \<Rightarrow> nat \<times> bitmask_solver \<times> board" where
  "count_after r c rest limit taken ks count k res =
     (case res of (n, s2, b2) \<Rightarrow>
        if count + n \<ge> limit
        then (count + n, clear_masks s2 r c (get_box_index r c) (push_bit k 1), put b2 r c 0)
        else count_digits r c rest limit taken ks (count + n)
               (clear_masks s2 r c (get_box_index r c) (push_bit k 1)) (put b2 r c 0))"

text \<open>The same for the solving loop.\<close>

definition backtrack_after ::
  "nat \<Rightarrow> nat \<Rightarrow> cell list \<Rightarrow> int \<Rightarrow> nat list \<Rightarrow> nat \<Rightarrow> bool \<times> bitmask_solver \<times> board
     \<Rightarrow> bool \<times> bitmask_solver \<times> board" where
  "backtrack_after r c rest taken ks k res =
     (case res of (found, s2, b2) \<Rightarrow>
        if found then (True, s2, b2)
        else backtrack_digits r c rest taken ks
               (clear_masks s2 r c (get_box_index r c) (push_bit k 1)) (put b2 r c 0))"

lemma upd_Cons: "(x # xs)[i := v] = (if i = 0 then v # xs else x # xs[i - 1 := v])"
  by (cases i) auto

lemma upt9: "[0..<9] = [0, 1, 2, 3, 4, 5, 6, 7, 8::nat]"
  by code_simp

lemma all_cells_lit:
  "all_cells =
    [(0,0),(0,1),(0,2),(0,3),(0,4),(0,5),(0,6),(0,7),(0,8),
     (1,0),(1,1),(1,2),(1,3),(1,4),(1,5),(1,6),(1,7),(1,8),
     (2,0),(2,1),(2,2),(2,3),(2,4),(2,5),(2,6),(2,7),(2,8),
     (3,0),(3,1),(3,2),(3,3),(3,4),(3,5),(3,6),(3,7),(3,8),
     (4,0),(4,1),(4,2),(4,3),(4,4),(4,5),(4,6),(4,7),(4,8),
     (5,0),(5,1),(5,2),(5,3),(5,4),(5,5),(5,6),(5,7),(5,8),
     (6,0),(6,1),(6,2),(6,3),(6,4),(6,5),(6,6),(6,7),(6,8),
     (7,0),(7,1),(7,2),(7,3),(7,4),(7,5),(7,6),(7,7),(7,8),
     (8,0),(8,1),(8,2),(8,3),(8,4),(8,5),(8,6),(8,7),(8,8)]"
  by (simp add: all_cells_def upt9)

lemma tab_upd: "r < length xs \<Longrightarrow> (tab xs)(r := v) = tab (xs[r := v])"
  by (auto simp: tab_def fun_eq_iff)





lemma board_of_apply: "board_of rs r c = rs ! r ! c"
  by (simp add: board_of_def)

lemma put_board_of:
  "r < length rs \<Longrightarrow> c < length (rs ! r) \<Longrightarrow>
   put (board_of rs) r c v = board_of (rs[r := (rs ! r)[c := v]])"
  by (auto simp: put_def board_of_def fun_eq_iff)

lemma count_digits_Cons:
  "count_digits r c rest limit taken (k # ks) count s b =
   (if taken AND push_bit k 1 = 0
    then count_after r c rest limit taken ks count k
           (backtrack_count (set_masks s r c (get_box_index r c) (push_bit k 1))
              (put b r c (k + 1)) rest limit)
    else count_digits r c rest limit taken ks count s b)"
  by (simp add: count_after_def Let_def split: prod.splits)

lemma count_after_eval:
  "count_after r c rest limit taken ks count k (n, s2, b2) =
     (if count + n \<ge> limit
      then (count + n, clear_masks s2 r c (get_box_index r c) (push_bit k 1), put b2 r c 0)
      else count_digits r c rest limit taken ks (count + n)
             (clear_masks s2 r c (get_box_index r c) (push_bit k 1)) (put b2 r c 0))"
  by (simp add: count_after_def)

lemma backtrack_digits_Cons:
  "backtrack_digits r c rest taken (k # ks) s b =
   (if taken AND push_bit k 1 = 0
    then backtrack_after r c rest taken ks k
           (backtrack (set_masks s r c (get_box_index r c) (push_bit k 1)) (put b r c (k + 1)) rest)
    else backtrack_digits r c rest taken ks s b)"
  by (simp add: backtrack_after_def Let_def split: prod.splits)

lemma backtrack_after_eval:
  "backtrack_after r c rest taken ks k (found, s2, b2) =
     (if found then (True, s2, b2)
      else backtrack_digits r c rest taken ks
             (clear_masks s2 r c (get_box_index r c) (push_bit k 1)) (put b2 r c 0))"
  by (simp add: backtrack_after_def)

lemma init_step_eval:
  "init_step b (s, ec) (r, c) =
   (if b r c \<noteq> 0
    then (set_masks s r c (get_box_index r c) (push_bit (b r c - 1) 1), ec)
    else (s, ec @ [(r, c)]))"
  by (simp add: init_step_def Let_def)


section \<open>The count returned by the counting search\<close>










section \<open>Candidates and constraint propagation of sudoku\_hybrid.py\<close>

text \<open>
  A Python set of digits is modelled by the list of its elements in increasing order.
  \<^verbatim>\<open>get_candidates\<close> starts from \<^verbatim>\<open>set(range(1, 10))\<close> and removes the values of
  the row, of the column and of the box.
\<close>

definition row_values :: "board \<Rightarrow> nat \<Rightarrow> nat list" where
  "row_values b row = map (b row) [0..<9]"

definition col_values :: "board \<Rightarrow> nat \<Rightarrow> nat list" where
  "col_values b col = map (\<lambda>i. b i col) [0..<9]"

definition box_values :: "board \<Rightarrow> nat \<Rightarrow> nat \<Rightarrow> nat list" where
  "box_values b br bc = concat (map (\<lambda>i. map (\<lambda>j. b i j) [bc..<bc + 3]) [br..<br + 3])"

definition get_candidates :: "board \<Rightarrow> nat \<Rightarrow> nat \<Rightarrow> nat list" where
  "get_candidates b row col =
     (if b row col \<noteq> 0 then []
      else filter (\<lambda>d. d \<notin> set (row_values b row) \<and> d \<notin> set (col_values b col)
                       \<and> d \<notin> set (box_values b (3 * (row div 3)) (3 * (col div 3))))
             [1..<10])"

text \<open>\<^verbatim>\<open>is_valid(board, row, col, num)\<close>\<close>

definition is_valid :: "board \<Rightarrow> nat \<Rightarrow> nat \<Rightarrow> nat \<Rightarrow> bool" where
  "is_valid b row col num =
     ((\<forall>i \<in> set [0..<9]. \<not> (b row i = num \<and> i \<noteq> col) \<and> \<not> (b i col = num \<and> i \<noteq> row)) \<and>
      (\<forall>i \<in> set [3 * (row div 3)..<3 * (row div 3) + 3].
         \<forall>j \<in> set [3 * (col div 3)..<3 * (col div 3) + 3].
           \<not> (b i j = num \<and> (i, j) \<noteq> (row, col))))"

text \<open>
  \<^verbatim>\<open>solve_dnc_subgrid\<close>: the body of the double loop on one cell, with the board and
  the flag \<^verbatim>\<open>progress\<close>, and the loop over the nine cells of the box. A set of one
  element gives that element on \<^verbatim>\<open>pop()\<close>.
\<close>

definition dnc_cell :: "board \<times> bool \<Rightarrow> cell \<Rightarrow> board \<times> bool" where
  "dnc_cell acc rc =
     (case acc of (b, progress) \<Rightarrow> case rc of (r, c) \<Rightarrow>
        if b r c = 0
        then (let cands = get_candidates b r c
              in if length cands = 1 then (put b r c (hd cands), True) else (b, progress))
        else (b, progress))"

definition box_cells :: "nat \<Rightarrow> nat \<Rightarrow> cell list" where
  "box_cells sr sc = concat (map (\<lambda>r. map (\<lambda>c. (r, c)) [sc..<sc + 3]) [sr..<sr + 3])"

definition solve_dnc_subgrid :: "board \<Rightarrow> nat \<Rightarrow> nat \<Rightarrow> board \<times> bool" where
  "solve_dnc_subgrid b sr sc = foldl dnc_cell (b, False) (box_cells sr sc)"

text \<open>
  One pass of the \<^verbatim>\<open>while changed\<close> loop of \<^verbatim>\<open>solve_dnc_phase\<close> over the nine
  boxes, and the loop.
\<close>

definition box_origins :: "cell list" where
  "box_origins = concat (map (\<lambda>box_r. map (\<lambda>box_c. (box_r, box_c)) [0, 3, 6]) [0, 3, 6])"

definition dnc_box :: "board \<times> bool \<Rightarrow> cell \<Rightarrow> board \<times> bool" where
  "dnc_box acc origin =
     (case acc of (b, changed) \<Rightarrow> case origin of (box_r, box_c) \<Rightarrow>
        (case solve_dnc_subgrid b box_r box_c of (b', progress) \<Rightarrow>
           (b', if progress then True else changed)))"

definition dnc_pass :: "board \<Rightarrow> board \<times> bool" where
  "dnc_pass b = foldl dnc_box (b, False) box_origins"

text \<open>The number of empty cells of a board.\<close>

definition empties :: "board \<Rightarrow> nat" where
  "empties b = length (filter (\<lambda>rc. b (fst rc) (snd rc) = 0) all_cells)"


section \<open>Propagation terminates\<close>


lemma set_all_cells: "set all_cells = {0..<9} \<times> {0..<9}"
  by (auto simp: all_cells_def)

lemma distinct_all_cells: "distinct all_cells"
  by (simp add: all_cells_lit)

lemma put_apply: "put b r c v r' c' = (if r' = r \<and> c' = c then v else b r' c')"
  by (simp add: put_def)

lemma empties_put_less:
  assumes "r < 9" "c < 9" "b r c = 0" "v \<noteq> 0"
  shows "empties (put b r c v) < empties b"
proof -
  let ?A = "{x \<in> set all_cells. put b r c v (fst x) (snd x) = 0}"
  let ?B = "{x \<in> set all_cells. b (fst x) (snd x) = 0}"
  have mem: "(r, c) \<in> set all_cells" using assms by (simp add: set_all_cells)
  have "?A \<subseteq> ?B" using assms by (auto simp: put_apply split: if_splits)
  moreover have "(r, c) \<in> ?B" "(r, c) \<notin> ?A" using assms mem by (auto simp: put_apply)
  ultimately have "?A \<subset> ?B" by blast
  then have "card ?A < card ?B" by (intro psubset_card_mono) auto
  moreover have "empties (put b r c v) = card ?A" "empties b = card ?B"
    unfolding empties_def
    by (simp_all add: distinct_length_filter distinct_all_cells Int_def conj_commute)
  ultimately show ?thesis by simp
qed

lemma get_candidates_range: "d \<in> set (get_candidates b r c) \<Longrightarrow> 1 \<le> d \<and> d \<le> 9"
  by (auto simp: get_candidates_def split: if_splits)

lemma dnc_cell_cases:
  assumes "r < 9" "c < 9" "dnc_cell (b, p) (r, c) = (b', p')"
  shows "(b' = b \<and> p' = p) \<or> (empties b' < empties b \<and> p')"
proof (cases "b r c = 0 \<and> length (get_candidates b r c) = 1")
  case False
  with assms(3) show ?thesis by (auto simp: dnc_cell_def Let_def split: if_splits)
next
  case True
  then obtain d where d: "get_candidates b r c = [d]"
    by (cases "get_candidates b r c") auto
  then have "d \<noteq> 0" using get_candidates_range[of d b r c] by simp
  with True d assms show ?thesis
    by (auto simp: dnc_cell_def Let_def empties_put_less)
qed

lemma foldl_dnc_cell:
  "\<forall>rc \<in> set cs. fst rc < 9 \<and> snd rc < 9 \<Longrightarrow> foldl dnc_cell (b, p) cs = (b', p') \<Longrightarrow>
   (b' = b \<and> p' = p) \<or> (empties b' < empties b \<and> p')"
proof (induction cs arbitrary: b p)
  case Nil
  then show ?case by simp
next
  case (Cons rc cs)
  obtain r c where rc: "rc = (r, c)" by (cases rc)
  obtain b1 p1 where step: "dnc_cell (b, p) (r, c) = (b1, p1)" by (cases "dnc_cell (b, p) (r, c)")
  have s1: "(b1 = b \<and> p1 = p) \<or> (empties b1 < empties b \<and> p1)"
    using dnc_cell_cases[OF _ _ step] Cons.prems(1) rc by simp
  have s2: "(b' = b1 \<and> p' = p1) \<or> (empties b' < empties b1 \<and> p')"
    using Cons.IH[of b1 p1] Cons.prems rc step by simp
  from s1 s2 show ?case by auto
qed

lemma box_cells_range:
  "sr + 3 \<le> 9 \<Longrightarrow> sc + 3 \<le> 9 \<Longrightarrow> \<forall>rc \<in> set (box_cells sr sc). fst rc < 9 \<and> snd rc < 9"
  by (auto simp: box_cells_def)

lemma solve_dnc_subgrid_cases:
  "sr + 3 \<le> 9 \<Longrightarrow> sc + 3 \<le> 9 \<Longrightarrow> solve_dnc_subgrid b sr sc = (b', p') \<Longrightarrow>
   (b' = b \<and> \<not> p') \<or> (empties b' < empties b \<and> p')"
  using foldl_dnc_cell[OF box_cells_range, of sr sc b False b' p']
  by (auto simp: solve_dnc_subgrid_def)

lemma foldl_dnc_box:
  "\<forall>x \<in> set os. fst x + 3 \<le> 9 \<and> snd x + 3 \<le> 9 \<Longrightarrow> foldl dnc_box (b, p) os = (b', p') \<Longrightarrow>
   (b' = b \<and> p' = p) \<or> (empties b' < empties b \<and> p')"
proof (induction os arbitrary: b p)
  case Nil
  then show ?case by simp
next
  case (Cons x os)
  obtain sr sc where x: "x = (sr, sc)" by (cases x)
  obtain b1 q where sub: "solve_dnc_subgrid b sr sc = (b1, q)" by (cases "solve_dnc_subgrid b sr sc")
  have s1: "(b1 = b \<and> \<not> q) \<or> (empties b1 < empties b \<and> q)"
    using solve_dnc_subgrid_cases[OF _ _ sub] Cons.prems(1) x by simp
  have step: "dnc_box (b, p) x = (b1, if q then True else p)"
    by (simp add: dnc_box_def x sub)
  have s2: "(b' = b1 \<and> p' = (if q then True else p)) \<or> (empties b' < empties b1 \<and> p')"
    using Cons.IH[of b1 "if q then True else p"] Cons.prems step by simp
  from s1 s2 show ?case by (auto split: if_splits)
qed

lemma dnc_pass_cases:
  "dnc_pass b = (b', changed) \<Longrightarrow> (b' = b \<and> \<not> changed) \<or> (empties b' < empties b \<and> changed)"
  using foldl_dnc_box[of box_origins b False b' changed]
  by (auto simp: dnc_pass_def box_origins_def)

text \<open>
  \<^verbatim>\<open>solve_dnc_phase\<close>: passes are repeated while one of them places a digit. Each
  such pass leaves fewer empty cells, so the loop ends. The model returns the board
  that the source has mutated.
\<close>

function solve_dnc_phase :: "board \<Rightarrow> board" where
  "solve_dnc_phase b =
     (case dnc_pass b of (b', changed) \<Rightarrow> if changed then solve_dnc_phase b' else b')"
  by pat_completeness auto
termination
  by (relation "measure empties") (auto dest: dnc_pass_cases[OF sym])

declare solve_dnc_phase.simps [simp del]



section \<open>Propagation is idempotent\<close>

lemma dnc_cell_eval:
  "dnc_cell (b, p) (r, c) =
     (if b r c = 0
      then (if length (get_candidates b r c) = 1 then (put b r c (hd (get_candidates b r c)), True)
            else (b, p))
      else (b, p))"
  by (simp add: dnc_cell_def Let_def)

lemma dnc_box_eval:
  "dnc_box (b, changed) (box_r, box_c) =
     (fst (solve_dnc_subgrid b box_r box_c),
      if snd (solve_dnc_subgrid b box_r box_c) then True else changed)"
  by (simp add: dnc_box_def split: prod.splits)

lemma solve_dnc_phase_eval:
  "solve_dnc_phase b =
     (if snd (dnc_pass b) then solve_dnc_phase (fst (dnc_pass b)) else fst (dnc_pass b))"
  by (subst solve_dnc_phase.simps) (simp split: prod.splits)

lemma upt_lits:
  "[Suc 0..<10] = [1, 2, 3, 4, 5, 6, 7, 8, 9::nat]" "[0..<3] = [0, 1, 2::nat]"
  "[3..<6] = [3, 4, 5::nat]" "[6..<9] = [6, 7, 8::nat]"
  by code_simp+

lemmas dnc_evals = upt_lits dnc_cell_eval dnc_box_eval get_candidates_def
  row_values_def col_values_def box_values_def box_cells_def box_origins_def solve_dnc_subgrid_def
  dnc_pass_def put_board_of board_of_apply upd_Cons upt9

lemma dnc_fixed: "dnc_pass (solve_dnc_phase b) = (solve_dnc_phase b, False)"
proof (induction b rule: solve_dnc_phase.induct)
  case (1 b)
  obtain b' changed where pass: "dnc_pass b = (b', changed)" by (cases "dnc_pass b")
  show ?case
  proof (cases changed)
    case True
    with 1 pass show ?thesis by (simp add: solve_dnc_phase_eval[of b])
  next
    case False
    with pass dnc_pass_cases[OF pass] show ?thesis by (simp add: solve_dnc_phase_eval[of b])
  qed
qed

text \<open>A solved grid, and the same grid with the cells (0,0), (0,1) and (8,0) emptied.\<close>

definition solved_rows :: "nat list list" where
  "solved_rows =
    [[5,3,4,6,7,8,9,1,2],
     [6,7,2,1,9,5,3,4,8],
     [1,9,8,3,4,2,5,6,7],
     [8,5,9,7,6,1,4,2,3],
     [4,2,6,8,5,3,7,9,1],
     [7,1,3,9,2,4,8,5,6],
     [9,6,1,5,3,7,2,8,4],
     [2,8,7,4,1,9,6,3,5],
     [3,4,5,2,8,6,1,7,9]]"

definition three_holes_rows :: "nat list list" where
  "three_holes_rows =
    [[0,0,4,6,7,8,9,1,2],
     [6,7,2,1,9,5,3,4,8],
     [1,9,8,3,4,2,5,6,7],
     [8,5,9,7,6,1,4,2,3],
     [4,2,6,8,5,3,7,9,1],
     [7,1,3,9,2,4,8,5,6],
     [9,6,1,5,3,7,2,8,4],
     [2,8,7,4,1,9,6,3,5],
     [0,4,5,2,8,6,1,7,9]]"

definition one_hole_rows :: "nat list list" where
  "one_hole_rows =
    [[0,3,4,6,7,8,9,1,2],
     [6,7,2,1,9,5,3,4,8],
     [1,9,8,3,4,2,5,6,7],
     [8,5,9,7,6,1,4,2,3],
     [4,2,6,8,5,3,7,9,1],
     [7,1,3,9,2,4,8,5,6],
     [9,6,1,5,3,7,2,8,4],
     [2,8,7,4,1,9,6,3,5],
     [3,4,5,2,8,6,1,7,9]]"

lemma three_holes_pass: "dnc_pass (board_of three_holes_rows) = (board_of one_hole_rows, True)"
  by (simp add: dnc_evals three_holes_rows_def one_hole_rows_def)

lemma one_hole_pass: "dnc_pass (board_of one_hole_rows) = (board_of solved_rows, True)"
  by (simp add: dnc_evals solved_rows_def one_hole_rows_def)

lemma solved_pass: "dnc_pass (board_of solved_rows) = (board_of solved_rows, False)"
  by (simp add: dnc_evals solved_rows_def)

lemma three_holes_phase: "solve_dnc_phase (board_of three_holes_rows) = board_of solved_rows"
  by (simp add: solve_dnc_phase_eval three_holes_pass one_hole_pass solved_pass)

text \<open>
  C5. Running \<^verbatim>\<open>solve_dnc_phase\<close> on the result of a first run changes nothing: the
  first run ends with a pass that places no digit, and such a pass leaves the board as
  it is, so the second run starts with that same pass and stops.
\<close>

theorem propagate_idempotent: "solve_dnc_phase (solve_dnc_phase b) = solve_dnc_phase b"
  by (subst solve_dnc_phase_eval) (simp add: dnc_fixed)

theorem propagate_idempotent_witness:
  "solve_dnc_phase (board_of three_holes_rows) = board_of solved_rows \<and>
   solve_dnc_phase (solve_dnc_phase (board_of three_holes_rows)) = board_of solved_rows"
  using propagate_idempotent [of "board_of three_holes_rows"]
  by (simp add: three_holes_phase)


section \<open>Completeness checks\<close>





lemma all_cells_iff: "list_all P all_cells \<longleftrightarrow> (\<forall>r<9. \<forall>c<9. P (r, c))"
  by (auto simp: list_all_iff set_all_cells)






text \<open>
  The board of sudoku\_hybrid.py keeps the rules: every filled cell holds a value that
  \<^verbatim>\<open>is_valid\<close> accepts in its place, that is, a value that no other cell of its row,
  its column or its box holds.
\<close>

definition rules_kept :: "board \<Rightarrow> bool" where
  "rules_kept b =
     list_all (\<lambda>rc. b (fst rc) (snd rc) = 0 \<or> is_valid b (fst rc) (snd rc) (b (fst rc) (snd rc)))
       all_cells"


text \<open>
  \<^verbatim>\<open>on_cell_edit\<close> of sudoku\_hybrid.py, as far as the board goes. The text of the cell
  is empty, an integer, or anything else (then \<^verbatim>\<open>int(v)\<close> raises \<^verbatim>\<open>ValueError\<close>,
  as does a number outside 1..9, and the board stays as it is).
\<close>

datatype entry = Blank | Number int | Garbage

definition on_cell_edit ::
  "bool \<Rightarrow> board \<Rightarrow> bool \<Rightarrow> board \<Rightarrow> board \<Rightarrow> nat \<Rightarrow> nat \<Rightarrow> entry \<Rightarrow> board" where
  "on_cell_edit game_over initial_board strict solution_board b row col v =
     (if game_over then b
      else if initial_board row col \<noteq> 0 then b
      else case v of
             Blank \<Rightarrow> put b row col 0
           | Garbage \<Rightarrow> b
           | Number n \<Rightarrow>
               if \<not> (1 \<le> n \<and> n \<le> 9) then b
               else if strict \<and> nat n \<noteq> solution_board row col then put b row col 0
               else if is_valid b row col (nat n) then put b row col (nat n)
               else put b row col 0)"


lemma in_box_range: "i \<in> set [3 * (r div 3)..<3 * (r div 3) + 3] \<longleftrightarrow> i div 3 = r div (3::nat)"
  by auto

lemma is_valid_iff:
  "is_valid b row col num \<longleftrightarrow>
     (\<forall>j<9. j \<noteq> col \<longrightarrow> b row j \<noteq> num) \<and>
     (\<forall>i<9. i \<noteq> row \<longrightarrow> b i col \<noteq> num) \<and>
     (\<forall>i j. i div 3 = row div 3 \<and> j div 3 = col div 3 \<and> (i, j) \<noteq> (row, col) \<longrightarrow> b i j \<noteq> num)"
proof -
  have box: "(\<forall>i \<in> set [3 * (row div 3)..<3 * (row div 3) + 3].
               \<forall>j \<in> set [3 * (col div 3)..<3 * (col div 3) + 3].
                 \<not> (b i j = num \<and> (i, j) \<noteq> (row, col))) \<longleftrightarrow>
             (\<forall>i j. i div 3 = row div 3 \<and> j div 3 = col div 3 \<and> (i, j) \<noteq> (row, col)
                \<longrightarrow> b i j \<noteq> num)"
    unfolding Ball_def in_box_range by blast
  have line: "(\<forall>i \<in> set [0..<9]. \<not> (b row i = num \<and> i \<noteq> col) \<and> \<not> (b i col = num \<and> i \<noteq> row)) \<longleftrightarrow>
              (\<forall>j<9. j \<noteq> col \<longrightarrow> b row j \<noteq> num) \<and> (\<forall>i<9. i \<noteq> row \<longrightarrow> b i col \<noteq> num)"
    by auto
  show ?thesis unfolding is_valid_def box line by blast
qed

lemma rules_kept_iff:
  "rules_kept b \<longleftrightarrow> (\<forall>r<9. \<forall>c<9. b r c \<noteq> 0 \<longrightarrow> is_valid b r c (b r c))"
  by (simp add: rules_kept_def all_cells_iff disj_imp)









lemma is_valid_cells:
  "is_valid b row col num \<longleftrightarrow>
     (\<forall>j<9. j \<noteq> col \<longrightarrow> b row j \<noteq> num) \<and>
     (\<forall>i<9. i \<noteq> row \<longrightarrow> b i col \<noteq> num) \<and>
     (\<forall>i j. i div 3 = row div 3 \<longrightarrow> j div 3 = col div 3 \<longrightarrow> (i \<noteq> row \<or> j \<noteq> col)
        \<longrightarrow> b i j \<noteq> num)"
  unfolding is_valid_iff by auto

lemma is_validI:
  assumes "\<And>j. j < 9 \<Longrightarrow> j \<noteq> col \<Longrightarrow> b row j \<noteq> num"
    and "\<And>i. i < 9 \<Longrightarrow> i \<noteq> row \<Longrightarrow> b i col \<noteq> num"
    and "\<And>i j. i div 3 = row div 3 \<Longrightarrow> j div 3 = col div 3 \<Longrightarrow> i \<noteq> row \<or> j \<noteq> col
           \<Longrightarrow> b i j \<noteq> num"
  shows "is_valid b row col num"
  unfolding is_valid_cells using assms by blast

lemma is_valid_rowD: "is_valid b row col num \<Longrightarrow> j < 9 \<Longrightarrow> j \<noteq> col \<Longrightarrow> b row j \<noteq> num"
  unfolding is_valid_cells by blast

lemma is_valid_colD: "is_valid b row col num \<Longrightarrow> i < 9 \<Longrightarrow> i \<noteq> row \<Longrightarrow> b i col \<noteq> num"
  unfolding is_valid_cells by blast

lemma is_valid_boxD:
  "is_valid b row col num \<Longrightarrow> i div 3 = row div 3 \<Longrightarrow> j div 3 = col div 3 \<Longrightarrow>
   i \<noteq> row \<or> j \<noteq> col \<Longrightarrow> b i j \<noteq> num"
  unfolding is_valid_cells by blast

lemma rules_keptD: "rules_kept b \<Longrightarrow> r < 9 \<Longrightarrow> c < 9 \<Longrightarrow> b r c \<noteq> 0 \<Longrightarrow> is_valid b r c (b r c)"
  unfolding rules_kept_iff by blast

lemma rules_keptI:
  "(\<And>r c. r < 9 \<Longrightarrow> c < 9 \<Longrightarrow> b r c \<noteq> 0 \<Longrightarrow> is_valid b r c (b r c)) \<Longrightarrow> rules_kept b"
  unfolding rules_kept_iff by blast

lemma div3_less9:
  assumes "i div 3 = r div 3" "r < 9"
  shows "i < (9::nat)"
proof -
  have "r div 3 < 3" using assms(2) by (simp add: div_less_iff_less_mult)
  then have "i div 3 < 3" using assms(1) by simp
  then show ?thesis by (simp add: div_less_iff_less_mult)
qed

lemma rules_kept_sub:
  assumes "rules_kept R" "\<And>r c. r < 9 \<Longrightarrow> c < 9 \<Longrightarrow> b r c \<noteq> 0 \<Longrightarrow> b r c = R r c"
  shows "rules_kept b"
proof (rule rules_keptI)
  fix r c assume rc: "r < 9" "c < 9" "b r c \<noteq> 0"
  then have eq: "b r c = R r c" by (rule assms(2))
  then have nz: "R r c \<noteq> 0" using rc(3) by simp
  have v: "is_valid R r c (R r c)" by (rule rules_keptD[OF assms(1) rc(1,2) nz])
  have cell: "b i j \<noteq> R r c" if "i < 9" "j < 9" "R i j \<noteq> R r c" for i j
  proof (cases "b i j = 0")
    case True
    with nz show ?thesis by simp
  next
    case False
    then have "b i j = R i j" by (rule assms(2)[OF that(1,2)])
    with that(3) show ?thesis by simp
  qed
  show "is_valid b r c (b r c)" unfolding eq
  proof (rule is_validI)
    fix j assume j: "j < 9" "j \<noteq> c"
    show "b r j \<noteq> R r c" by (rule cell[OF rc(1) j(1) is_valid_rowD[OF v j]])
  next
    fix i assume i: "i < 9" "i \<noteq> r"
    show "b i c \<noteq> R r c" by (rule cell[OF i(1) rc(2) is_valid_colD[OF v i]])
  next
    fix i j assume h: "i div 3 = r div 3" "j div 3 = c div 3" "i \<noteq> r \<or> j \<noteq> c"
    show "b i j \<noteq> R r c"
      by (rule cell[OF div3_less9[OF h(1) rc(1)] div3_less9[OF h(2) rc(2)] is_valid_boxD[OF v h]])
  qed
qed

lemma rules_kept_clear: "rules_kept b \<Longrightarrow> rules_kept (put b row col 0)"
proof (erule rules_kept_sub)
  fix r c assume "put b row col 0 r c \<noteq> 0"
  then show "put b row col 0 r c = b r c" by (auto simp: put_apply split: if_splits)
qed

lemma rules_kept_put:
  assumes "rules_kept b" "row < 9" "col < 9" "is_valid b row col num"
  shows "rules_kept (put b row col num)"
proof (rule rules_keptI)
  fix r c assume rc: "r < 9" "c < 9" "put b row col num r c \<noteq> 0"
  show "is_valid (put b row col num) r c (put b row col num r c)"
  proof (cases "r = row \<and> c = col")
    case True
    then have val: "put b row col num r c = num" by (auto simp: put_apply)
    show ?thesis unfolding val
    proof (rule is_validI)
      fix j assume j: "j < 9" "j \<noteq> c"
      then have "put b row col num r j = b row j" using True by (auto simp: put_apply)
      with is_valid_rowD[OF assms(4), of j] j True show "put b row col num r j \<noteq> num" by simp
    next
      fix i assume i: "i < 9" "i \<noteq> r"
      then have "put b row col num i c = b i col" using True by (auto simp: put_apply)
      with is_valid_colD[OF assms(4), of i] i True show "put b row col num i c \<noteq> num" by simp
    next
      fix i j assume h: "i div 3 = r div 3" "j div 3 = c div 3" "i \<noteq> r \<or> j \<noteq> c"
      then have "put b row col num i j = b i j" using True by (auto simp: put_apply)
      with is_valid_boxD[OF assms(4), of i j] h True show "put b row col num i j \<noteq> num" by simp
    qed
  next
    case False
    then have val: "put b row col num r c = b r c" by (auto simp: put_apply)
    with rc(3) have nz: "b r c \<noteq> 0" by simp
    have v: "is_valid b r c (b r c)" by (rule rules_keptD[OF assms(1) rc(1,2) nz])
    have other: "put b row col num i j \<noteq> b r c" if "b i j \<noteq> b r c" "(i = row \<and> j = col) \<longrightarrow> num \<noteq> b r c"
      for i j using that by (auto simp: put_apply)
    show ?thesis unfolding val
    proof (rule is_validI)
      fix j assume j: "j < 9" "j \<noteq> c"
      show "put b row col num r j \<noteq> b r c"
      proof (rule other[OF is_valid_rowD[OF v j]], rule impI)
        assume "r = row \<and> j = col"
        with is_valid_rowD[OF assms(4) rc(2)] j show "num \<noteq> b r c" by auto
      qed
    next
      fix i assume i: "i < 9" "i \<noteq> r"
      show "put b row col num i c \<noteq> b r c"
      proof (rule other[OF is_valid_colD[OF v i]], rule impI)
        assume "i = row \<and> c = col"
        with is_valid_colD[OF assms(4) rc(1)] i show "num \<noteq> b r c" by auto
      qed
    next
      fix i j assume h: "i div 3 = r div 3" "j div 3 = c div 3" "i \<noteq> r \<or> j \<noteq> c"
      show "put b row col num i j \<noteq> b r c"
      proof (rule other[OF is_valid_boxD[OF v h]], rule impI)
        assume e: "i = row \<and> j = col"
        have "b r c \<noteq> num"
        proof (rule is_valid_boxD[OF assms(4)])
          show "r div 3 = row div 3" using h(1) e by simp
          show "c div 3 = col div 3" using h(2) e by simp
          show "r \<noteq> row \<or> c \<noteq> col" using h(3) e by auto
        qed
        then show "num \<noteq> b r c" by simp
      qed
    qed
  qed
qed



text \<open>
  The writes of sudoku\_hybrid.py to its board keep the rules: a cell is cleared, or
  a value is entered that \<^verbatim>\<open>is_valid\<close> accepts, or a cell is copied from a grid that
  keeps the rules; and a grid whose rows, columns and boxes hold distinct values keeps
  them (\<open>distinct_rules\<close>).
\<close>

lemma on_cell_edit_keeps_rules:
  assumes "rules_kept b" "row < 9" "col < 9"
  shows "rules_kept (on_cell_edit game_over initial_board strict solution_board b row col v)"
  using assms rules_kept_clear[OF assms(1), of row col]
  by (cases v) (simp_all add: on_cell_edit_def rules_kept_put)





section \<open>The bitmask search of sudoku\_hybrid.py\<close>

text \<open>
  The solver's own fields: the three mask arrays and the memo table \<^verbatim>\<open>dp_cache\<close>. The
  keys of the table are the boards as tuples of tuples (\<open>rows_of\<close>). A stored value is
  either \<^verbatim>\<open>None\<close> or the one board object the search works on, so the table maps a
  key to \<open>False\<close> for \<^verbatim>\<open>None\<close> and to \<open>True\<close> for that object.
\<close>

record dp_state =
  row_mask :: "nat \<Rightarrow> int"
  col_mask :: "nat \<Rightarrow> int"
  box_mask :: "nat \<Rightarrow> int"
  dp_cache :: "nat list list \<rightharpoonup> bool"

definition box_id :: "nat \<Rightarrow> nat \<Rightarrow> nat" where
  "box_id row col = (row div 3) * 3 + col div 3"

definition init_bitmasks_step :: "board \<Rightarrow> dp_state \<Rightarrow> cell \<Rightarrow> dp_state" where
  "init_bitmasks_step b st rc =
     (case rc of (r, c) \<Rightarrow>
        if b r c \<noteq> 0
        then (let bt = push_bit (b r c - 1) 1
              in st\<lparr>row_mask := (row_mask st)(r := row_mask st r OR bt),
                    col_mask := (col_mask st)(c := col_mask st c OR bt),
                    box_mask := (box_mask st)(box_id r c := box_mask st (box_id r c) OR bt)\<rparr>)
        else st)"

definition init_bitmasks :: "dp_state \<Rightarrow> board \<Rightarrow> dp_state" where
  "init_bitmasks st b =
     foldl (init_bitmasks_step b)
       (st\<lparr>row_mask := (\<lambda>_. 0), col_mask := (\<lambda>_. 0), box_mask := (\<lambda>_. 0)\<rparr>) all_cells"

definition used_mask :: "dp_state \<Rightarrow> nat \<Rightarrow> nat \<Rightarrow> int" where
  "used_mask st row col = row_mask st row OR col_mask st col OR box_mask st (box_id row col)"

definition candidates_bitmask :: "dp_state \<Rightarrow> board \<Rightarrow> nat \<Rightarrow> nat \<Rightarrow> int" where
  "candidates_bitmask st b row col =
     (if b row col \<noteq> 0 then 0 else (NOT (used_mask st row col)) AND 511)"

text \<open>\<^verbatim>\<open>_bitmask_to_set\<close>: the digits \<open>d + 1\<close> whose bit \<open>d\<close> is set, in increasing order.\<close>

definition bitmask_to_set :: "int \<Rightarrow> nat list" where
  "bitmask_to_set msk = map Suc (filter (\<lambda>d. msk AND push_bit d 1 \<noteq> 0) [0..<9])"

text \<open>
  \<^verbatim>\<open>bin(mask).count("1")\<close>: the number of ones in the binary numeral of the absolute
  value of \<open>mask\<close>.
\<close>

function ones :: "nat \<Rightarrow> nat" where
  "ones n = (if n = 0 then 0 else n mod 2 + ones (n div 2))"
  by pat_completeness auto
termination
  by (relation "measure id") auto

declare ones.simps [simp del]

definition bin_count :: "int \<Rightarrow> nat" where
  "bin_count msk = ones (nat \<bar>msk\<bar>)"

text \<open>
  \<^verbatim>\<open>_find_mrv_cell_bitmask\<close>: the scan of the cells in row-major order, from a given
  cell on, with \<^verbatim>\<open>best\<close> and \<^verbatim>\<open>best_count\<close>. \<open>None\<close> is \<^verbatim>\<open>None\<close>.
\<close>

fun mrv_scan ::
  "dp_state \<Rightarrow> board \<Rightarrow> cell list \<Rightarrow> (nat \<times> nat \<times> nat list) option \<Rightarrow> nat
     \<Rightarrow> (nat \<times> nat \<times> nat list) option" where
  "mrv_scan st b [] best best_count = best"
| "mrv_scan st b ((r, c) # rest) best best_count =
     (if b r c = 0
      then (let msk = candidates_bitmask st b r c; count = bin_count msk
            in if count = 0 then Some (r, c, [])
               else if count < best_count
                    then (if count = 1 then Some (r, c, bitmask_to_set msk)
                          else mrv_scan st b rest (Some (r, c, bitmask_to_set msk)) count)
                    else mrv_scan st b rest best best_count)
      else mrv_scan st b rest best best_count)"

definition find_mrv_cell_bitmask :: "dp_state \<Rightarrow> board \<Rightarrow> (nat \<times> nat \<times> nat list) option" where
  "find_mrv_cell_bitmask st b = mrv_scan st b all_cells None 10"


section \<open>The most constrained cell\<close>

lemma ones_bound: "n < 2 ^ k \<Longrightarrow> ones n \<le> k"
proof (induction k arbitrary: n)
  case 0
  then show ?case by (simp add: ones.simps)
next
  case (Suc k)
  show ?case
  proof (cases "n = 0")
    case True
    then show ?thesis by (simp add: ones.simps)
  next
    case False
    have "n div 2 < 2 ^ k" using Suc.prems by auto
    then have "ones (n div 2) \<le> k" by (rule Suc.IH)
    moreover have "n mod 2 \<le> 1" by simp
    ultimately show ?thesis using False by (subst ones.simps) simp
  qed
qed

lemma bin_count_candidates: "bin_count (candidates_bitmask st b r c) \<le> 9"
proof -
  have "0 \<le> candidates_bitmask st b r c" "candidates_bitmask st b r c \<le> 511"
    by (auto simp: candidates_bitmask_def AND_upper2')
  then have "nat \<bar>candidates_bitmask st b r c\<bar> < 2 ^ 9" by simp
  then show ?thesis unfolding bin_count_def by (rule ones_bound)
qed

lemma mrv_scan_None:
  "(best = None \<longrightarrow> 10 \<le> bc) \<Longrightarrow>
   mrv_scan st b cs best bc = None \<longleftrightarrow> best = None \<and> (\<forall>rc \<in> set cs. b (fst rc) (snd rc) \<noteq> 0)"
proof (induction cs arbitrary: best bc)
  case Nil
  then show ?case by simp
next
  case (Cons rc cs)
  obtain r c where rc: "rc = (r, c)" by (cases rc)
  let ?n = "bin_count (candidates_bitmask st b r c)"
  have n9: "?n \<le> 9" by (rule bin_count_candidates)
  show ?case
  proof (cases "b r c = 0")
    case False
    with Cons rc show ?thesis by simp
  next
    case True
    show ?thesis
    proof (cases "?n = 0")
      case True
      with \<open>b r c = 0\<close> rc show ?thesis by (auto simp: Let_def)
    next
      case False
      show ?thesis
      proof (cases "?n < bc")
        case True
        with False \<open>b r c = 0\<close> rc
          Cons.IH[of "Some (r, c, bitmask_to_set (candidates_bitmask st b r c))" ?n]
        show ?thesis by (simp add: Let_def)
      next
        case nlt: False
        then have "best \<noteq> None" using Cons.prems n9 by auto
        with nlt False \<open>b r c = 0\<close> rc Cons.IH[of best bc] show ?thesis
          by (simp add: Let_def)
      qed
    qed
  qed
qed

lemma mrv_scan_first:
  assumes "\<forall>rc \<in> set pre. b (fst rc) (snd rc) = 0 \<longrightarrow> 2 \<le> bin_count (candidates_bitmask st b (fst rc) (snd rc))"
    and "b r c = 0" and "bin_count (candidates_bitmask st b r c) \<le> 1" and "2 \<le> bc"
  shows "mrv_scan st b (pre @ (r, c) # post) best bc =
         Some (r, c, if bin_count (candidates_bitmask st b r c) = 0 then []
                     else bitmask_to_set (candidates_bitmask st b r c))"
  using assms
proof (induction pre arbitrary: best bc)
  case Nil
  then show ?case by (auto simp: Let_def)
next
  case (Cons x pre)
  obtain r' c' where x: "x = (r', c')" by (cases x)
  show ?case
  proof (cases "b r' c' = 0")
    case False
    with Cons x show ?thesis by simp
  next
    case True
    then have "2 \<le> bin_count (candidates_bitmask st b r' c')" using Cons.prems(1) x by simp
    with True x Cons.IH[OF _ Cons.prems(2,3)] Cons.prems(1,4) show ?thesis
      by (simp add: Let_def)
  qed
qed

lemma mrv_scan_keep:
  "\<forall>rc \<in> set cs. b (fst rc) (snd rc) = 0 \<longrightarrow> bc \<le> bin_count (candidates_bitmask st b (fst rc) (snd rc))
   \<Longrightarrow> 1 \<le> bc \<Longrightarrow> mrv_scan st b cs best bc = best"
proof (induction cs)
  case Nil
  then show ?case by simp
next
  case (Cons x cs)
  obtain r c where x: "x = (r, c)" by (cases x)
  from Cons x show ?case by (auto simp: Let_def)
qed

lemma mrv_scan_min:
  assumes "\<forall>rc \<in> set pre. b (fst rc) (snd rc) = 0 \<longrightarrow>
             bin_count (candidates_bitmask st b r c) < bin_count (candidates_bitmask st b (fst rc) (snd rc))"
    and "b r c = 0" and "2 \<le> bin_count (candidates_bitmask st b r c)"
    and "bin_count (candidates_bitmask st b r c) < bc"
    and "\<forall>rc \<in> set post. b (fst rc) (snd rc) = 0 \<longrightarrow>
             bin_count (candidates_bitmask st b r c) \<le> bin_count (candidates_bitmask st b (fst rc) (snd rc))"
  shows "mrv_scan st b (pre @ (r, c) # post) best bc =
         Some (r, c, bitmask_to_set (candidates_bitmask st b r c))"
  using assms(1,4)
proof (induction pre arbitrary: best bc)
  case Nil
  with assms(2,3,5) show ?case by (simp add: Let_def mrv_scan_keep)
next
  case (Cons x pre)
  obtain r' c' where x: "x = (r', c')" by (cases x)
  show ?case
  proof (cases "b r' c' = 0")
    case False
    with Cons x show ?thesis by simp
  next
    case True
    then have lt: "bin_count (candidates_bitmask st b r c) < bin_count (candidates_bitmask st b r' c')"
      using Cons.prems(1) x by simp
    have rest: "\<forall>rc \<in> set pre. b (fst rc) (snd rc) = 0 \<longrightarrow>
             bin_count (candidates_bitmask st b r c) < bin_count (candidates_bitmask st b (fst rc) (snd rc))"
      using Cons.prems(1) by simp
    from True x lt assms(3) Cons.IH[OF rest lt] Cons.IH[OF rest Cons.prems(2)] show ?thesis
      by (simp add: Let_def)
  qed
qed

text \<open>The normal form of a concrete solver state, and the state of a fresh solver.\<close>

definition dp_tab :: "int list \<Rightarrow> int list \<Rightarrow> int list \<Rightarrow> (nat list list \<rightharpoonup> bool) \<Rightarrow> dp_state" where
  "dp_tab rs cs bs ch = \<lparr>row_mask = tab rs, col_mask = tab cs, box_mask = tab bs, dp_cache = ch\<rparr>"

definition dp_init :: dp_state where
  "dp_init = \<lparr>row_mask = (\<lambda>_. 0), col_mask = (\<lambda>_. 0), box_mask = (\<lambda>_. 0), dp_cache = Map.empty\<rparr>"

text \<open>
  Two boards that keep the Sudoku rules. In the first, (0,0) has one candidate and (8,8)
  has none; in the second, (0,0) has two candidates and (0,1) has none.
\<close>

definition skipped_rows :: "nat list list" where
  "skipped_rows =
    [[0,1,2,3,4,5,6,7,8],
     [0,0,0,0,0,0,0,0,0],
     [0,0,0,0,0,0,0,0,0],
     [0,0,0,0,0,0,0,0,0],
     [0,0,0,0,0,0,0,0,9],
     [0,0,0,0,0,0,0,0,0],
     [0,0,0,0,0,0,0,0,0],
     [0,0,0,0,0,0,0,0,0],
     [2,3,4,5,6,7,8,1,0]]"

definition flagged_rows :: "nat list list" where
  "flagged_rows =
    [[0,0,1,2,3,4,5,6,7],
     [0,0,0,0,0,0,0,0,0],
     [0,0,0,0,0,0,0,0,0],
     [0,8,0,0,0,0,0,0,0],
     [0,9,0,0,0,0,0,0,0],
     [0,0,0,0,0,0,0,0,0],
     [0,0,0,0,0,0,0,0,0],
     [0,0,0,0,0,0,0,0,0],
     [0,0,0,0,0,0,0,0,0]]"

lemma init_bitmasks_step_tab:
  "r < length rs \<Longrightarrow> c < length cs \<Longrightarrow> box_id r c < length bs \<Longrightarrow>
   init_bitmasks_step b (dp_tab rs cs bs ch) (r, c) =
   (if b r c \<noteq> 0
    then dp_tab (rs[r := rs ! r OR push_bit (b r c - 1) 1]) (cs[c := cs ! c OR push_bit (b r c - 1) 1])
           (bs[box_id r c := bs ! box_id r c OR push_bit (b r c - 1) 1]) ch
    else dp_tab rs cs bs ch)"
  by (simp add: init_bitmasks_step_def dp_tab_def tab_upd Let_def) (simp add: tab_def)

lemma init_bitmasks_tab:
  "init_bitmasks st b =
   foldl (init_bitmasks_step b)
     (dp_tab [0,0,0,0,0,0,0,0,0] [0,0,0,0,0,0,0,0,0] [0,0,0,0,0,0,0,0,0] (dp_cache st)) all_cells"
proof -
  have "replicate 9 (0::int) = [0,0,0,0,0,0,0,0,0]" by code_simp
  moreover have "tab (replicate 9 0) = (\<lambda>_. 0)" by (auto simp: tab_def fun_eq_iff)
  ultimately show ?thesis by (cases st) (simp add: init_bitmasks_def dp_tab_def)
qed

lemma used_mask_tab:
  "used_mask (dp_tab rs cs bs ch) r c = tab rs r OR tab cs c OR tab bs (box_id r c)"
  by (simp add: used_mask_def dp_tab_def)

lemma mrv_scan_Cons:
  "mrv_scan st b ((r, c) # rest) best bc =
     (if b r c = 0
      then (if bin_count (candidates_bitmask st b r c) = 0 then Some (r, c, [])
            else if bin_count (candidates_bitmask st b r c) < bc
                 then (if bin_count (candidates_bitmask st b r c) = 1
                       then Some (r, c, bitmask_to_set (candidates_bitmask st b r c))
                       else mrv_scan st b rest
                              (Some (r, c, bitmask_to_set (candidates_bitmask st b r c)))
                              (bin_count (candidates_bitmask st b r c)))
                 else mrv_scan st b rest best bc)
      else mrv_scan st b rest best bc)"
  by (simp add: Let_def)

lemmas mrv_evals = init_bitmasks_tab init_bitmasks_step_tab used_mask_tab mrv_scan_Cons
  candidates_bitmask_def bitmask_to_set_def bin_count_def ones.simps box_id_def tab_def
  find_mrv_cell_bitmask_def all_cells_lit board_of_apply upd_Cons upt9 dp_init_def

lemma skipped_state: "init_bitmasks dp_init (board_of skipped_rows) =
   dp_tab [255,0,0,0,256,0,0,0,255] [2,5,10,20,40,80,160,65,384] [3,28,224,0,0,256,14,112,129] Map.empty"
  by (simp add: mrv_evals skipped_rows_def del: mrv_scan.simps)

lemma skipped_mrv:
  "find_mrv_cell_bitmask (init_bitmasks dp_init (board_of skipped_rows)) (board_of skipped_rows)
   = Some (0, 0, [9])"
  unfolding skipped_state
  by (simp add: mrv_evals skipped_rows_def del: mrv_scan.simps)

lemma skipped_zero:
  "candidates_bitmask (init_bitmasks dp_init (board_of skipped_rows)) (board_of skipped_rows) 8 8 = 0"
  unfolding skipped_state
  by (simp add: mrv_evals skipped_rows_def del: mrv_scan.simps)

text \<open>
  C6 (as the source behaves). \<^verbatim>\<open>_find_mrv_cell_bitmask\<close> returns \<^verbatim>\<open>None\<close> exactly when
  the board has no empty cell. If some empty cell has at most one candidate, the scan
  stops at the first such cell, in row-major order, and returns it: with the empty
  candidate set when it has none (the unsolvable-state signal), with its one candidate
  when it has one. So a zero-candidate cell is returned when no empty cell with exactly
  one candidate comes before it. If every empty cell has two candidates or more, the scan
  returns the first of the empty cells with the fewest candidates, with its candidates.
\<close>

theorem find_mrv_cell_bitmask_result:
  "(find_mrv_cell_bitmask st b = None \<longleftrightarrow> (\<forall>r<9. \<forall>c<9. b r c \<noteq> 0)) \<and>
   (all_cells = pre @ (r, c) # post \<and> b r c = 0 \<and>
    bin_count (candidates_bitmask st b r c) \<le> 1 \<and>
    (\<forall>rc \<in> set pre. b (fst rc) (snd rc) = 0 \<longrightarrow>
       2 \<le> bin_count (candidates_bitmask st b (fst rc) (snd rc)))
    \<longrightarrow> find_mrv_cell_bitmask st b =
         Some (r, c, if bin_count (candidates_bitmask st b r c) = 0 then []
                     else bitmask_to_set (candidates_bitmask st b r c))) \<and>
   (all_cells = pre @ (r, c) # post \<and> b r c = 0 \<and>
    2 \<le> bin_count (candidates_bitmask st b r c) \<and>
    (\<forall>rc \<in> set pre. b (fst rc) (snd rc) = 0 \<longrightarrow>
       bin_count (candidates_bitmask st b r c)
       < bin_count (candidates_bitmask st b (fst rc) (snd rc))) \<and>
    (\<forall>rc \<in> set post. b (fst rc) (snd rc) = 0 \<longrightarrow>
       bin_count (candidates_bitmask st b r c)
       \<le> bin_count (candidates_bitmask st b (fst rc) (snd rc)))
    \<longrightarrow> find_mrv_cell_bitmask st b = Some (r, c, bitmask_to_set (candidates_bitmask st b r c)))"
proof (intro conjI impI)
  show "find_mrv_cell_bitmask st b = None \<longleftrightarrow> (\<forall>r<9. \<forall>c<9. b r c \<noteq> 0)"
    unfolding find_mrv_cell_bitmask_def
    by (subst mrv_scan_None) (auto simp: set_all_cells)
next
  assume h: "all_cells = pre @ (r, c) # post \<and> b r c = 0 \<and>
    bin_count (candidates_bitmask st b r c) \<le> 1 \<and>
    (\<forall>rc \<in> set pre. b (fst rc) (snd rc) = 0 \<longrightarrow>
       2 \<le> bin_count (candidates_bitmask st b (fst rc) (snd rc)))"
  then show "find_mrv_cell_bitmask st b =
         Some (r, c, if bin_count (candidates_bitmask st b r c) = 0 then []
                     else bitmask_to_set (candidates_bitmask st b r c))"
    unfolding find_mrv_cell_bitmask_def
    using mrv_scan_first[of pre b st r c 10 post None] by simp
next
  assume h: "all_cells = pre @ (r, c) # post \<and> b r c = 0 \<and>
    2 \<le> bin_count (candidates_bitmask st b r c) \<and>
    (\<forall>rc \<in> set pre. b (fst rc) (snd rc) = 0 \<longrightarrow>
       bin_count (candidates_bitmask st b r c)
       < bin_count (candidates_bitmask st b (fst rc) (snd rc))) \<and>
    (\<forall>rc \<in> set post. b (fst rc) (snd rc) = 0 \<longrightarrow>
       bin_count (candidates_bitmask st b r c)
       \<le> bin_count (candidates_bitmask st b (fst rc) (snd rc)))"
  have "bin_count (candidates_bitmask st b r c) < 10"
    using bin_count_candidates[of st b r c] by simp
  with h show "find_mrv_cell_bitmask st b = Some (r, c, bitmask_to_set (candidates_bitmask st b r c))"
    unfolding find_mrv_cell_bitmask_def
    using mrv_scan_min[of pre b st r c 10 post None] by simp
qed

lemma flagged_count:
  "bin_count (candidates_bitmask (init_bitmasks dp_init (board_of flagged_rows))
                (board_of flagged_rows) 0 1) = 0"
  by (simp add: mrv_evals flagged_rows_def del: mrv_scan.simps)

lemma flagged_hyp:
  "all_cells = [(0, 0)] @ (0, 1) # drop 2 all_cells \<and>
   board_of flagged_rows 0 1 = 0 \<and>
   bin_count (candidates_bitmask (init_bitmasks dp_init (board_of flagged_rows))
                (board_of flagged_rows) 0 1) \<le> 1 \<and>
   (\<forall>rc \<in> set [(0, 0)]. board_of flagged_rows (fst rc) (snd rc) = 0 \<longrightarrow>
      2 \<le> bin_count (candidates_bitmask (init_bitmasks dp_init (board_of flagged_rows))
                (board_of flagged_rows) (fst rc) (snd rc)))"
proof -
  have a: "all_cells = [(0, 0)] @ (0, 1) # drop 2 all_cells"
    by (simp add: all_cells_lit)
  have b: "board_of flagged_rows 0 1 = 0"
    by (simp add: board_of_apply flagged_rows_def)
  have c: "bin_count (candidates_bitmask (init_bitmasks dp_init (board_of flagged_rows))
                (board_of flagged_rows) 0 1) \<le> 1"
    by (simp only: flagged_count)
  have d0: "bin_count (candidates_bitmask (init_bitmasks dp_init (board_of flagged_rows))
                (board_of flagged_rows) 0 0) = 2"
    by (simp add: mrv_evals flagged_rows_def del: mrv_scan.simps)
  have d: "\<forall>rc \<in> set [(0, 0)]. board_of flagged_rows (fst rc) (snd rc) = 0 \<longrightarrow>
      2 \<le> bin_count (candidates_bitmask (init_bitmasks dp_init (board_of flagged_rows))
                (board_of flagged_rows) (fst rc) (snd rc))"
    using d0 by simp
  show ?thesis by (rule conjI[OF a conjI[OF b conjI[OF c d]]])
qed


text \<open>
  A board whose four empty cells have the two candidates 6 and 7 each.
\<close>

definition rectangle_rows :: "nat list list" where
  "rectangle_rows =
    [[5,3,4,0,0,8,9,1,2],
     [6,7,2,1,9,5,3,4,8],
     [1,9,8,3,4,2,5,6,7],
     [8,5,9,0,0,1,4,2,3],
     [4,2,6,8,5,3,7,9,1],
     [7,1,3,9,2,4,8,5,6],
     [9,6,1,5,3,7,2,8,4],
     [2,8,7,4,1,9,6,3,5],
     [3,4,5,2,8,6,1,7,9]]"

lemma rectangle_cell:
  "board_of rectangle_rows r c =
    [[5,3,4,0,0,8,9,1,2],
     [6,7,2,1,9,5,3,4,8],
     [1,9,8,3,4,2,5,6,7],
     [8,5,9,0,0,1,4,2,3],
     [4,2,6,8,5,3,7,9,1],
     [7,1,3,9,2,4,8,5,6],
     [9,6,1,5,3,7,2,8,4],
     [2,8,7,4,1,9,6,3,5],
     [3,4,5,2,8,6,1,7,9]] ! r ! c"
  by (simp add: board_of_apply rectangle_rows_def)

lemma rectangle_counts:
  "bin_count (candidates_bitmask (init_bitmasks dp_init (board_of rectangle_rows))
                (board_of rectangle_rows) 0 3) = 2"
  "bin_count (candidates_bitmask (init_bitmasks dp_init (board_of rectangle_rows))
                (board_of rectangle_rows) 0 4) = 2"
  "bin_count (candidates_bitmask (init_bitmasks dp_init (board_of rectangle_rows))
                (board_of rectangle_rows) 3 3) = 2"
  "bin_count (candidates_bitmask (init_bitmasks dp_init (board_of rectangle_rows))
                (board_of rectangle_rows) 3 4) = 2"
  by (simp_all add: mrv_evals rectangle_rows_def del: mrv_scan.simps)

lemma rectangle_set:
  "bitmask_to_set (candidates_bitmask (init_bitmasks dp_init (board_of rectangle_rows))
                (board_of rectangle_rows) 0 3) = [6, 7]"
  by (simp add: mrv_evals upt_lits rectangle_rows_def del: mrv_scan.simps)

lemma rectangle_hyp:
  "all_cells = take 3 all_cells @ (0, 3) # drop 4 all_cells \<and>
   board_of rectangle_rows 0 3 = 0 \<and>
   2 \<le> bin_count (candidates_bitmask (init_bitmasks dp_init (board_of rectangle_rows))
                (board_of rectangle_rows) 0 3) \<and>
   (\<forall>rc \<in> set (take 3 all_cells). board_of rectangle_rows (fst rc) (snd rc) = 0 \<longrightarrow>
      bin_count (candidates_bitmask (init_bitmasks dp_init (board_of rectangle_rows))
                (board_of rectangle_rows) 0 3)
      < bin_count (candidates_bitmask (init_bitmasks dp_init (board_of rectangle_rows))
                (board_of rectangle_rows) (fst rc) (snd rc))) \<and>
   (\<forall>rc \<in> set (drop 4 all_cells). board_of rectangle_rows (fst rc) (snd rc) = 0 \<longrightarrow>
      bin_count (candidates_bitmask (init_bitmasks dp_init (board_of rectangle_rows))
                (board_of rectangle_rows) 0 3)
      \<le> bin_count (candidates_bitmask (init_bitmasks dp_init (board_of rectangle_rows))
                (board_of rectangle_rows) (fst rc) (snd rc)))"
proof -
  have a: "all_cells = take 3 all_cells @ (0, 3) # drop 4 all_cells"
    by (simp add: all_cells_lit)
  have b: "board_of rectangle_rows 0 3 = 0"
    by (simp add: rectangle_cell)
  have c: "2 \<le> bin_count (candidates_bitmask (init_bitmasks dp_init (board_of rectangle_rows))
                (board_of rectangle_rows) 0 3)"
    by (simp only: rectangle_counts)
  have d: "\<forall>rc \<in> set (take 3 all_cells). board_of rectangle_rows (fst rc) (snd rc) = 0 \<longrightarrow>
      bin_count (candidates_bitmask (init_bitmasks dp_init (board_of rectangle_rows))
                (board_of rectangle_rows) 0 3)
      < bin_count (candidates_bitmask (init_bitmasks dp_init (board_of rectangle_rows))
                (board_of rectangle_rows) (fst rc) (snd rc))"
    by (simp add: all_cells_lit rectangle_cell)
  have e: "\<forall>rc \<in> set (drop 4 all_cells). board_of rectangle_rows (fst rc) (snd rc) = 0 \<longrightarrow>
      bin_count (candidates_bitmask (init_bitmasks dp_init (board_of rectangle_rows))
                (board_of rectangle_rows) 0 3)
      \<le> bin_count (candidates_bitmask (init_bitmasks dp_init (board_of rectangle_rows))
                (board_of rectangle_rows) (fst rc) (snd rc))"
    by (simp add: all_cells_lit rectangle_cell rectangle_counts)
  show ?thesis by (rule conjI[OF a conjI[OF b conjI[OF c conjI[OF d e]]]])
qed

theorem find_mrv_cell_bitmask_result_witness:
  "find_mrv_cell_bitmask (init_bitmasks dp_init (board_of flagged_rows)) (board_of flagged_rows)
     = Some (0, 1, []) \<and>
   board_of flagged_rows 0 0 = 0 \<and>
   find_mrv_cell_bitmask (init_bitmasks dp_init (board_of rectangle_rows)) (board_of rectangle_rows)
     = Some (0, 3, [6, 7])"
proof -
  have "find_mrv_cell_bitmask (init_bitmasks dp_init (board_of flagged_rows))
          (board_of flagged_rows) =
        Some (0, 1, if bin_count (candidates_bitmask (init_bitmasks dp_init (board_of flagged_rows))
                (board_of flagged_rows) 0 1) = 0 then []
              else bitmask_to_set (candidates_bitmask (init_bitmasks dp_init (board_of flagged_rows))
                (board_of flagged_rows) 0 1))"
    by (rule find_mrv_cell_bitmask_result
          [where st = "init_bitmasks dp_init (board_of flagged_rows)"
             and b = "board_of flagged_rows" and pre = "[(0, 0)]" and r = 0 and c = 1
             and post = "drop 2 all_cells", THEN conjunct2, THEN conjunct1, rule_format,
           OF flagged_hyp])
  then have f: "find_mrv_cell_bitmask (init_bitmasks dp_init (board_of flagged_rows))
          (board_of flagged_rows) = Some (0, 1, [])"
    by (simp only: flagged_count if_True simp_thms)
  have e: "board_of flagged_rows 0 0 = 0"
    by (simp add: board_of_apply flagged_rows_def)
  have "find_mrv_cell_bitmask (init_bitmasks dp_init (board_of rectangle_rows))
          (board_of rectangle_rows) =
        Some (0, 3, bitmask_to_set (candidates_bitmask (init_bitmasks dp_init (board_of rectangle_rows))
                (board_of rectangle_rows) 0 3))"
    by (rule find_mrv_cell_bitmask_result
          [where st = "init_bitmasks dp_init (board_of rectangle_rows)"
             and b = "board_of rectangle_rows" and pre = "take 3 all_cells" and r = 0 and c = 3
             and post = "drop 4 all_cells", THEN conjunct2, THEN conjunct2, rule_format,
           OF rectangle_hyp])
  then have g: "find_mrv_cell_bitmask (init_bitmasks dp_init (board_of rectangle_rows))
          (board_of rectangle_rows) = Some (0, 3, [6, 7])"
    by (simp only: rectangle_set)
  show ?thesis by (rule conjI[OF f conjI[OF e g]])
qed

text \<open>
  C6 as stated fails: on the board \<open>skipped_rows\<close> the cell (8,8) is empty and has no
  candidate, while the scan returns the cell (0,0), which has the one candidate 9 and
  comes first.
\<close>

theorem find_mrv_cell_bitmask_skips_zero_candidate_cell:
  "find_mrv_cell_bitmask (init_bitmasks dp_init (board_of skipped_rows)) (board_of skipped_rows)
     = Some (0, 0, [9]) \<and>
   board_of skipped_rows 8 8 = 0 \<and>
   bin_count (candidates_bitmask (init_bitmasks dp_init (board_of skipped_rows))
                (board_of skipped_rows) 8 8) = 0"
proof -
  have z: "bin_count (candidates_bitmask (init_bitmasks dp_init (board_of skipped_rows))
                (board_of skipped_rows) 8 8) = 0"
    by (simp only: skipped_zero) (simp add: bin_count_def ones.simps)
  have e: "board_of skipped_rows 8 8 = 0"
    by (simp add: board_of_apply skipped_rows_def)
  show ?thesis by (rule conjI[OF skipped_mrv conjI[OF e z]])
qed


section \<open>Trial and undo in the bitmask solver of sudoku\_dp.py\<close>

lemma or_and_not: "x AND m = 0 \<Longrightarrow> (x OR m) AND NOT m = (x::int)"
  by (rule bit_eqI) (auto simp: bit_simps dest: bit_eq_iff[THEN iffD1, rule_format])

lemma or_and_zero: "(a OR b OR c) AND m = 0 \<Longrightarrow> a AND m = 0 \<and> b AND m = 0 \<and> c AND (m::int) = 0"
  by (metis and.commute and.left_neutral bit.conj_disj_distrib or_eq_0_iff)

lemma clear_set_masks:
  assumes "taken_mask s r c AND m = 0"
  shows "clear_masks (set_masks s r c (get_box_index r c) m) r c (get_box_index r c) m = s"
proof -
  have "rows s r AND m = 0" "cols s c AND m = 0" "boxes s (get_box_index r c) AND m = 0"
    using or_and_zero[OF assms[unfolded taken_mask_def]] by auto
  then show ?thesis
    by (simp add: clear_masks_def set_masks_def or_and_not)
qed

lemma put_put_empty: "b r c = 0 \<Longrightarrow> put (put b r c v) r c 0 = b"
  by (auto simp: put_def fun_eq_iff)

lemma put_other: "(r', c') \<noteq> (r, c) \<Longrightarrow> put b r c v r' c' = b r' c'"
  by (auto simp: put_def)

declare backtrack_digits.simps(2) [simp del] count_digits.simps(2) [simp del]

lemma backtrack_restores:
  "distinct cs \<Longrightarrow> \<forall>rc \<in> set cs. b (fst rc) (snd rc) = 0 \<Longrightarrow>
   backtrack s b cs = (False, s', b') \<Longrightarrow> s' = s \<and> b' = b"
proof (induction cs arbitrary: s b s' b')
  case Nil
  then show ?case by simp
next
  case (Cons x rest)
  obtain r c where x: "x = (r, c)" by (cases x)
  have notin: "(r, c) \<notin> set rest" and dist: "distinct rest" and empty: "b r c = 0"
    and empties: "\<forall>rc \<in> set rest. b (fst rc) (snd rc) = 0"
    using Cons.prems(1,2) x by auto
  note outerIH = Cons.IH
  have digits: "backtrack_digits r c rest (taken_mask s r c) ks s b = (False, s', b') \<Longrightarrow>
                s' = s \<and> b' = b" for ks s' b'
  proof (induction ks)
    case Nil
    then show ?case by simp
  next
    case (Cons k ks)
    let ?m = "push_bit k 1 :: int"
    let ?s1 = "set_masks s r c (get_box_index r c) ?m"
    let ?b1 = "put b r c (k + 1)"
    show ?case
    proof (cases "taken_mask s r c AND ?m = 0")
      case False
      with Cons show ?thesis by (simp add: backtrack_digits_Cons)
    next
      case True
      obtain f s2 b2 where res: "backtrack ?s1 ?b1 rest = (f, s2, b2)"
        by (cases "backtrack ?s1 ?b1 rest") auto
      have f: "\<not> f"
        using Cons.prems True res
        by (auto simp: backtrack_digits_Cons backtrack_after_eval split: if_splits)
      have e1: "\<forall>rc \<in> set rest. ?b1 (fst rc) (snd rc) = 0"
        using notin empties by (auto simp: put_apply)
      have "s2 = ?s1 \<and> b2 = ?b1"
      proof (rule outerIH[OF dist])
        show "\<forall>rc \<in> set rest. ?b1 (fst rc) (snd rc) = 0" by (rule e1)
        show "backtrack ?s1 ?b1 rest = (False, s2, b2)" using res f by simp
      qed
      then have "clear_masks s2 r c (get_box_index r c) ?m = s" "put b2 r c 0 = b"
        using True empty by (simp_all add: clear_set_masks put_put_empty)
      with Cons.prems True res f
      have "backtrack_digits r c rest (taken_mask s r c) ks s b = (False, s', b')"
        by (simp add: backtrack_digits_Cons backtrack_after_eval)
      then show ?thesis by (rule Cons.IH)
    qed
  qed
  from Cons.prems(3) x show ?case by (simp add: digits)
qed

lemma backtrack_count_restores:
  "distinct cs \<Longrightarrow> \<forall>rc \<in> set cs. b (fst rc) (snd rc) = 0 \<Longrightarrow>
   backtrack_count s b cs limit = (n, s', b') \<Longrightarrow> s' = s \<and> b' = b"
proof (induction cs arbitrary: s b n s' b')
  case Nil
  then show ?case by simp
next
  case (Cons x rest)
  obtain r c where x: "x = (r, c)" by (cases x)
  have notin: "(r, c) \<notin> set rest" and dist: "distinct rest" and empty: "b r c = 0"
    and empties: "\<forall>rc \<in> set rest. b (fst rc) (snd rc) = 0"
    using Cons.prems(1,2) x by auto
  note outerIH = Cons.IH
  have digits: "count_digits r c rest limit (taken_mask s r c) ks count s b = (n, s', b') \<Longrightarrow>
                s' = s \<and> b' = b" for ks count n s' b'
  proof (induction ks arbitrary: count)
    case Nil
    then show ?case by simp
  next
    case (Cons k ks)
    let ?m = "push_bit k 1 :: int"
    let ?s1 = "set_masks s r c (get_box_index r c) ?m"
    let ?b1 = "put b r c (k + 1)"
    show ?case
    proof (cases "taken_mask s r c AND ?m = 0")
      case False
      with Cons show ?thesis by (simp add: count_digits_Cons)
    next
      case tk: True
      obtain m s2 b2 where res: "backtrack_count ?s1 ?b1 rest limit = (m, s2, b2)"
        by (cases "backtrack_count ?s1 ?b1 rest limit") auto
      have e1: "\<forall>rc \<in> set rest. ?b1 (fst rc) (snd rc) = 0"
        using notin empties by (auto simp: put_apply)
      have "s2 = ?s1 \<and> b2 = ?b1"
        by (rule outerIH[OF dist e1 res])
      then have undo: "clear_masks s2 r c (get_box_index r c) ?m = s" "put b2 r c 0 = b"
        using tk empty by (simp_all add: clear_set_masks put_put_empty)
      show ?thesis
      proof (cases "limit \<le> count + m")
        case True
        with Cons.prems tk res undo show ?thesis
          by (simp add: count_digits_Cons count_after_eval)
      next
        case False
        with Cons.prems tk res undo
        have "count_digits r c rest limit (taken_mask s r c) ks (count + m) s b = (n, s', b')"
          by (simp add: count_digits_Cons count_after_eval)
        then show ?thesis by (rule Cons.IH)
      qed
    qed
  qed
  from Cons.prems(3) x show ?case by (simp add: digits)
qed

lemma backtrack_frame:
  "backtrack s b cs = (f, s', b') \<Longrightarrow> (r', c') \<notin> set cs \<Longrightarrow> b' r' c' = b r' c'"
proof (induction cs arbitrary: s b f s' b')
  case Nil
  then show ?case by simp
next
  case (Cons x rest)
  obtain r c where x: "x = (r, c)" by (cases x)
  have ne: "(r', c') \<noteq> (r, c)" and notin: "(r', c') \<notin> set rest"
    using Cons.prems(2) x by auto
  note outerIH = Cons.IH
  have digits: "backtrack_digits r c rest taken ks s b = (f, s', b') \<Longrightarrow> b' r' c' = b r' c'"
    for ks taken s b f s' b'
  proof (induction ks arbitrary: s b)
    case Nil
    then show ?case by simp
  next
    case (Cons k ks)
    let ?m = "push_bit k 1 :: int"
    let ?s1 = "set_masks s r c (get_box_index r c) ?m"
    let ?b1 = "put b r c (k + 1)"
    show ?case
    proof (cases "taken AND ?m = 0")
      case False
      with Cons show ?thesis by (simp add: backtrack_digits_Cons)
    next
      case tk: True
      obtain g s2 b2 where res: "backtrack ?s1 ?b1 rest = (g, s2, b2)"
        by (cases "backtrack ?s1 ?b1 rest") auto
      have b2: "b2 r' c' = b r' c'"
        using outerIH[OF res notin] ne by (auto simp: put_apply)
      show ?thesis
      proof (cases g)
        case True
        with Cons.prems tk res b2 show ?thesis
          by (simp add: backtrack_digits_Cons backtrack_after_eval)
      next
        case False
        with Cons.prems tk res
        have "backtrack_digits r c rest taken ks (clear_masks s2 r c (get_box_index r c) ?m)
                (put b2 r c 0) = (f, s', b')"
          by (simp add: backtrack_digits_Cons backtrack_after_eval)
        from Cons.IH[OF this] b2 ne show ?thesis by (auto simp: put_apply)
      qed
    qed
  qed
  from Cons.prems(1) x show ?case by (simp add: digits)
qed

lemma foldl_init_step_cells:
  "snd (foldl (init_step b) (s, ec) cs) = ec @ filter (\<lambda>rc. b (fst rc) (snd rc) = 0) cs"
proof (induction cs arbitrary: s ec)
  case Nil
  then show ?case by simp
next
  case (Cons x cs)
  obtain r c where x: "x = (r, c)" by (cases x)
  show ?case by (simp add: x init_step_eval Cons.IH)
qed

lemma initialize_masks_cells:
  "snd (initialize_masks b) = filter (\<lambda>rc. b (fst rc) (snd rc) = 0) all_cells"
  by (simp add: initialize_masks_def foldl_init_step_cells)

lemma solve_extends:
  assumes "solve b = Some b'" "b r c \<noteq> 0"
  shows "b' r c = b r c"
proof -
  obtain s ec where init: "initialize_masks b = (s, ec)" by (cases "initialize_masks b")
  let ?cs = "sort_key (\<lambda>cell. count_options s (fst cell) (snd cell)) ec"
  obtain f s' b'' where bt: "backtrack s b ?cs = (f, s', b'')" by (cases "backtrack s b ?cs") auto
  have "b'' = b'" using assms(1) init bt by (simp add: solve_def split: if_splits)
  moreover have "(r, c) \<notin> set ?cs"
    using initialize_masks_cells[of b] init assms(2) by auto
  ultimately show ?thesis using backtrack_frame[OF bt] by simp
qed


section \<open>The memoising search of sudoku\_hybrid.py\<close>

text \<open>
  \<^verbatim>\<open>for num in candidates\<close> iterates a Python set, in an order that the language does
  not fix. The model takes the order as a parameter: a ranking of the elements, which
  may depend on the set, and the loop visits the candidates sorted by their rank. Every
  order of the elements is the order of some ranking.
\<close>

type_synonym set_order = "nat list \<Rightarrow> nat \<Rightarrow> nat"

definition iterate :: "set_order \<Rightarrow> nat list \<Rightarrow> nat list" where
  "iterate ord xs = sort_key (ord xs) xs"

text \<open>\<^verbatim>\<open>row_mask[row] |= bit; col_mask[col] |= bit; box_mask[box_id] |= bit\<close>\<close>

definition place :: "dp_state \<Rightarrow> nat \<Rightarrow> nat \<Rightarrow> int \<Rightarrow> dp_state" where
  "place st row col bt =
     st\<lparr>row_mask := (row_mask st)(row := row_mask st row OR bt),
        col_mask := (col_mask st)(col := col_mask st col OR bt),
        box_mask := (box_mask st)(box_id row col := box_mask st (box_id row col) OR bt)\<rparr>"

text \<open>\<^verbatim>\<open>row_mask[row] &= ~bit; col_mask[col] &= ~bit; box_mask[box_id] &= ~bit\<close>\<close>

definition unplace :: "dp_state \<Rightarrow> nat \<Rightarrow> nat \<Rightarrow> int \<Rightarrow> dp_state" where
  "unplace st row col bt =
     st\<lparr>row_mask := (row_mask st)(row := row_mask st row AND NOT bt),
        col_mask := (col_mask st)(col := col_mask st col AND NOT bt),
        box_mask := (box_mask st)(box_id row col := box_mask st (box_id row col) AND NOT bt)\<rparr>"

text \<open>\<^verbatim>\<open>self.dp_cache[state] = ...\<close>\<close>

definition remember :: "dp_state \<Rightarrow> nat list list \<Rightarrow> bool \<Rightarrow> dp_state" where
  "remember st key v = st\<lparr>dp_cache := (dp_cache st)(key \<mapsto> v)\<rparr>"

text \<open>
  \<^verbatim>\<open>_solve_dp_helper\<close>. The result \<open>True\<close> stands for the board object that the source
  returns, \<open>False\<close> for \<^verbatim>\<open>None\<close>; the board and the solver's fields are returned with
  it. The interpreter bounds the depth of the recursion: \<open>fuel\<close> is the depth that is
  left, and the model's \<open>None\<close> is the \<^verbatim>\<open>RecursionError\<close> raised when none is.
  \<open>try_candidates\<close> is the loop \<^verbatim>\<open>for num in candidates\<close> from a given candidate on.
\<close>

fun solve_dp_helper :: "nat \<Rightarrow> set_order \<Rightarrow> dp_state \<Rightarrow> board \<Rightarrow> (bool \<times> dp_state \<times> board) option"
  and try_candidates ::
    "nat \<Rightarrow> set_order \<Rightarrow> nat list list \<Rightarrow> nat \<Rightarrow> nat \<Rightarrow> nat list \<Rightarrow> dp_state \<Rightarrow> board
       \<Rightarrow> (bool \<times> dp_state \<times> board) option"
where
  "solve_dp_helper 0 ord st b = None"
| "solve_dp_helper (Suc fuel) ord st b =
     (let state = rows_of b in
      case dp_cache st state of
        Some v \<Rightarrow> Some (v, st, b)
      | None \<Rightarrow>
          (case find_mrv_cell_bitmask st b of
             None \<Rightarrow> Some (True, remember st state True, b)
           | Some (row, col, candidates) \<Rightarrow>
               if candidates = [] then Some (False, remember st state False, b)
               else try_candidates fuel ord state row col (iterate ord candidates) st b))"
| "try_candidates fuel ord state row col [] st b = Some (False, remember st state False, b)"
| "try_candidates fuel ord state row col (num # nums) st b =
     (let bt = push_bit (num - 1) 1 in
      case solve_dp_helper fuel ord (place st row col bt) (put b row col num) of
        None \<Rightarrow> None
      | Some (result, st2, b2) \<Rightarrow>
          if result then Some (True, remember st2 state True, b2)
          else try_candidates fuel ord state row col nums
                 (unplace st2 row col bt) (put b2 row col 0))"

text \<open>\<^verbatim>\<open>solve_dp\<close> of sudoku\_hybrid.py\<close>

definition solve_dp_hybrid :: "nat \<Rightarrow> set_order \<Rightarrow> dp_state \<Rightarrow> board \<Rightarrow> (bool \<times> dp_state \<times> board) option" where
  "solve_dp_hybrid fuel ord st b =
     solve_dp_helper fuel ord (init_bitmasks (st\<lparr>dp_cache := Map.empty\<rparr>) b) b"

text \<open>\<^verbatim>\<open>solve_hybrid\<close>, on a copy of the board it is given.\<close>

definition solve_hybrid :: "nat \<Rightarrow> set_order \<Rightarrow> dp_state \<Rightarrow> board \<Rightarrow> (bool \<times> dp_state \<times> board) option" where
  "solve_hybrid fuel ord st board_snapshot =
     solve_dp_hybrid fuel ord st (solve_dnc_phase board_snapshot)"


section \<open>Trial and undo in the memoising search\<close>

text \<open>A board extends another when it agrees with it on every filled cell.\<close>

definition extends :: "board \<Rightarrow> board \<Rightarrow> bool" where
  "extends b b' = (\<forall>r c. b r c \<noteq> 0 \<longrightarrow> b' r c = b r c)"

definition same_masks :: "dp_state \<Rightarrow> dp_state \<Rightarrow> bool" where
  "same_masks st st' =
     (row_mask st' = row_mask st \<and> col_mask st' = col_mask st \<and> box_mask st' = box_mask st)"

lemma and_bit_zero: "x AND push_bit d 1 = 0 \<longleftrightarrow> \<not> bit (x::int) d"
  by (simp add: push_bit_of_1 and_exp_eq_0_iff_not_bit)

lemma candidate_bit_clear:
  assumes "(NOT used AND 511) AND push_bit d 1 \<noteq> (0::int)"
  shows "used AND push_bit d 1 = 0"
  using assms by (auto simp: and_exp_eq_0_iff_not_bit bit_simps)

lemma bitmask_to_set_elem:
  "num \<in> set (bitmask_to_set msk) \<Longrightarrow> 1 \<le> num \<and> num \<le> 9 \<and> msk AND push_bit (num - 1) 1 \<noteq> 0"
  by (auto simp: bitmask_to_set_def)

lemma mrv_scan_Some:
  "mrv_scan st b cs best bc = Some (row, col, cands) \<Longrightarrow>
   best = Some (row, col, cands) \<or>
   (b row col = 0 \<and> (row, col) \<in> set cs \<and>
    (cands = [] \<or> cands = bitmask_to_set (candidates_bitmask st b row col)))"
proof (induction cs arbitrary: best bc)
  case Nil
  then show ?case by simp
next
  case (Cons x cs)
  obtain r c where x: "x = (r, c)" by (cases x)
  show ?case
    using Cons.prems Cons.IH[of best bc]
      Cons.IH[of "Some (r, c, bitmask_to_set (candidates_bitmask st b r c))"
                 "bin_count (candidates_bitmask st b r c)"]
    by (auto simp: x mrv_scan_Cons simp del: mrv_scan.simps split: if_splits)
qed

lemma find_mrv_Some:
  assumes "find_mrv_cell_bitmask st b = Some (row, col, cands)"
  shows "b row col = 0" "row < 9" "col < 9"
    "\<forall>num \<in> set cands. 1 \<le> num \<and> num \<le> 9 \<and> used_mask st row col AND push_bit (num - 1) 1 = 0"
proof -
  have m: "b row col = 0 \<and> (row, col) \<in> set all_cells \<and>
    (cands = [] \<or> cands = bitmask_to_set (candidates_bitmask st b row col))"
    using mrv_scan_Some[OF assms[unfolded find_mrv_cell_bitmask_def]] by simp
  then show "b row col = 0" "row < 9" "col < 9" by (auto simp: set_all_cells)
  show "\<forall>num \<in> set cands. 1 \<le> num \<and> num \<le> 9 \<and> used_mask st row col AND push_bit (num - 1) 1 = 0"
  proof
    fix num assume "num \<in> set cands"
    with m have "num \<in> set (bitmask_to_set (candidates_bitmask st b row col))" by auto
    from bitmask_to_set_elem[OF this]
    have n: "1 \<le> num" "num \<le> 9"
      and nz: "candidates_bitmask st b row col AND push_bit (num - 1) 1 \<noteq> 0"
      by auto
    have "candidates_bitmask st b row col = NOT (used_mask st row col) AND 511"
      using m by (simp add: candidates_bitmask_def)
    with nz have "(NOT (used_mask st row col) AND 511) AND push_bit (num - 1) 1 \<noteq> 0"
      by simp
    from candidate_bit_clear[OF this] n
    show "1 \<le> num \<and> num \<le> 9 \<and> used_mask st row col AND push_bit (num - 1) 1 = 0"
      by (intro conjI)
  qed
qed

lemma unplace_place:
  assumes "used_mask st row col AND bt = 0"
  shows "same_masks st (unplace (place st row col bt) row col bt)"
proof -
  have "row_mask st row AND bt = 0" "col_mask st col AND bt = 0"
       "box_mask st (box_id row col) AND bt = 0"
    using or_and_zero[OF assms[unfolded used_mask_def]] by auto
  then show ?thesis
    by (simp add: same_masks_def unplace_def place_def or_and_not)
qed

lemma same_masks_cong:
  "same_masks st st1 \<Longrightarrow> same_masks (place st1 row col bt) st2 \<Longrightarrow>
   used_mask st row col AND bt = 0 \<Longrightarrow> same_masks st (unplace st2 row col bt)"
  using unplace_place[of st row col bt]
  by (simp add: same_masks_def unplace_def place_def)

lemma same_masks_remember [simp]: "same_masks st (remember st' k v) = same_masks st st'"
  by (simp add: same_masks_def remember_def)

lemma same_masks_refl [simp]: "same_masks st st"
  by (simp add: same_masks_def)

lemma extends_refl [simp]: "extends b b"
  by (simp add: extends_def)

lemma extends_put:
  assumes "b row col = 0" "extends (put b row col num) b2"
  shows "extends b b2"
  unfolding extends_def
proof (intro allI impI)
  fix r c assume nz: "b r c \<noteq> 0"
  then have "\<not> (r = row \<and> c = col)" using assms(1) by auto
  then have "put b row col num r c = b r c" by (auto simp: put_apply)
  with nz assms(2) show "b2 r c = b r c" by (simp add: extends_def)
qed

lemma used_mask_same: "same_masks st st1 \<Longrightarrow> used_mask st1 row col = used_mask st row col"
  by (simp add: same_masks_def used_mask_def)

lemma set_iterate [simp]: "set (iterate ord xs) = set xs"
  by (simp add: iterate_def)

lemma same_masks_trans: "same_masks a b \<Longrightarrow> same_masks b c \<Longrightarrow> same_masks a c"
  by (simp add: same_masks_def)

lemma same_masks_place:
  "same_masks st st1 \<Longrightarrow> same_masks (place st row col bt) (place st1 row col bt)"
  by (simp add: same_masks_def place_def)

lemma same_masks_unplace:
  "same_masks st st1 \<Longrightarrow> same_masks (unplace st row col bt) (unplace st1 row col bt)"
  by (simp add: same_masks_def unplace_def)

lemma solve_dp_helper_result:
  "solve_dp_helper fuel ord st b = Some (res, st', b') \<Longrightarrow>
     (res \<longrightarrow> extends b b') \<and> (\<not> res \<longrightarrow> b' = b \<and> same_masks st st')"
proof (induction fuel arbitrary: st b res st' b')
  case 0
  then show ?case by simp
next
  case (Suc fuel)
  note outerIH = Suc.IH
  show ?case
  proof (cases "dp_cache st (rows_of b)")
    case (Some v)
    with Suc.prems show ?thesis by (auto simp: Let_def)
  next
    case None
    note miss = None
    show ?thesis
    proof (cases "find_mrv_cell_bitmask st b")
      case None
      with miss Suc.prems show ?thesis by (auto simp: Let_def)
    next
      case (Some m)
      obtain row col cands where m: "m = (row, col, cands)" by (cases m)
      note mrv = find_mrv_Some[OF Some[unfolded m]]
      show ?thesis
      proof (cases "cands = []")
        case True
        with miss Some m Suc.prems show ?thesis by (auto simp: Let_def)
      next
        case False
        have loop: "try_candidates fuel ord (rows_of b) row col nums st1 b = Some (res, st', b') \<Longrightarrow>
                    same_masks st st1 \<Longrightarrow> set nums \<subseteq> set cands \<Longrightarrow>
                    (res \<longrightarrow> extends b b') \<and> (\<not> res \<longrightarrow> b' = b \<and> same_masks st st')"
          for nums st1 res st' b'
        proof (induction nums arbitrary: st1)
          case Nil
          then show ?case by auto
        next
          case (Cons num nums)
          let ?bt = "push_bit (num - 1) 1 :: int"
          have clear: "used_mask st row col AND ?bt = 0" using mrv(4) Cons.prems(3) by auto
          obtain r2 st2 b2 where
            rec: "solve_dp_helper fuel ord (place st1 row col ?bt) (put b row col num) = Some (r2, st2, b2)"
            using Cons.prems(1) by (auto simp: Let_def split: option.splits)
          note ih = outerIH[OF rec]
          show ?case
          proof (cases r2)
            case True
            with Cons.prems(1) rec have "res" "b' = b2" by (auto simp: Let_def)
            moreover have "extends b b2" using ih True extends_put[of b row col num b2] mrv(1) by blast
            ultimately show ?thesis by simp
          next
            case False
            with ih have b2: "b2 = put b row col num" and sm: "same_masks (place st1 row col ?bt) st2"
              by auto
            have undo: "put b2 row col 0 = b" using b2 mrv(1) by (simp add: put_put_empty)
            have sm': "same_masks st (unplace st2 row col ?bt)"
              by (rule same_masks_cong[OF Cons.prems(2) sm clear])
            from Cons.prems(1) rec False undo
            have "try_candidates fuel ord (rows_of b) row col nums (unplace st2 row col ?bt) b
                    = Some (res, st', b')"
              by (simp add: Let_def)
            from Cons.IH[OF this sm'] Cons.prems(3) show ?thesis by simp
          qed
        qed
        from Suc.prems miss Some m False
        have "try_candidates fuel ord (rows_of b) row col (iterate ord cands) st b = Some (res, st', b')"
          by (simp add: Let_def)
        from loop[OF this] show ?thesis by simp
      qed
    qed
  qed
qed

lemma empties_le: "empties b \<le> 81"
proof -
  have "length all_cells = 81" by (simp add: all_cells_lit)
  then show ?thesis unfolding empties_def by (metis length_filter_le)
qed

lemma solve_dp_helper_returns:
  "empties b < fuel \<Longrightarrow> solve_dp_helper fuel ord st b \<noteq> None"
proof (induction fuel arbitrary: st b)
  case 0
  then show ?case by simp
next
  case (Suc fuel)
  note outerIH = Suc.IH
  show ?case
  proof (cases "dp_cache st (rows_of b)")
    case (Some v)
    then show ?thesis by (auto simp: Let_def)
  next
    case None
    note miss = None
    show ?thesis
    proof (cases "find_mrv_cell_bitmask st b")
      case None
      with miss show ?thesis by (auto simp: Let_def)
    next
      case (Some m)
      obtain row col cands where m: "m = (row, col, cands)" by (cases m)
      note mrv = find_mrv_Some[OF Some[unfolded m]]
      have loop: "set nums \<subseteq> set cands \<Longrightarrow>
                  try_candidates fuel ord (rows_of b) row col nums st1 b \<noteq> None"
        for nums st1
      proof (induction nums arbitrary: st1)
        case Nil
        then show ?case by simp
      next
        case (Cons num nums)
        let ?bt = "push_bit (num - 1) 1 :: int"
        have "num \<noteq> 0" using mrv(4) Cons.prems by auto
        from empties_put_less[of row col b num] mrv(1,2,3) this Suc.prems
        have "empties (put b row col num) < fuel" by simp
        then have "solve_dp_helper fuel ord (place st1 row col ?bt) (put b row col num) \<noteq> None"
          by (rule outerIH)
        then obtain r2 st2 b2 where
          rec: "solve_dp_helper fuel ord (place st1 row col ?bt) (put b row col num) = Some (r2, st2, b2)"
          by (metis not_None_eq prod_cases3)
        show ?case
        proof (cases r2)
          case True
          with rec show ?thesis by (auto simp: Let_def)
        next
          case False
          with solve_dp_helper_result[OF rec] have "b2 = put b row col num" by simp
          then have "put b2 row col 0 = b" using mrv(1) by (simp add: put_put_empty)
          with rec False Cons.IH[of "unplace st2 row col ?bt"] Cons.prems
          show ?thesis by (auto simp: Let_def)
        qed
      qed
      from miss Some m loop[of "iterate ord cands" st] show ?thesis
        by (auto simp: Let_def)
    qed
  qed
qed

end
